theory Spec2Isabelle
  imports Complex_Main
begin

section \<open>Tabular Q-learning over a discretised observation space\<close>

text \<open>
  A shallow embedding of \<^verbatim>\<open>src/policies/q_table_learning.py\<close>.

  Numbers. A Python integer is unbounded and is modelled as \<open>int\<close>; a numpy \<^verbatim>\<open>int64\<close> is
  modelled as the \<open>int\<close> it holds, with the wrap-around at \<open>2 ^ 63\<close> written out where numpy
  computes with it. A floating-point value is modelled as the real number it denotes. The
  result of every floating-point operation the code performs passes through a rounding
  function: \<open>f64\<close> for the double-precision arithmetic of Python floats and numpy scalars,
  \<open>f32\<close> for a store into the single-precision value table. The two functions are a
  parameter of the model (\<open>arith\<close>): \<open>exact_arith\<close> rounds nothing and gives the arithmetic
  the code writes down, carried out exactly; \<open>ieee_arith\<close> rounds to the nearest binary64
  and binary32 number, ties to even, with gradual underflow. Infinities and NaN are not
  values of the model: where a result of the code overflows, the model's keeps growing,
  and the statements about machine arithmetic bound the magnitudes they admit so that no
  operation overflows.

  Errors. Every exception the modelled code can raise is a value of \<open>error\<close>; a function
  that can raise returns \<open>error + 'a\<close> with \<open>Inl\<close> for the exception.
\<close>

datatype error =
    AssertionError
  | IndexError
  | OverflowError
  | ValueError
  | ZeroDivisionError
  | Exception error

subsection \<open>Floating-point arithmetic\<close>

record arith =
  f64 :: "real \<Rightarrow> real"
  f32 :: "real \<Rightarrow> real"

definition exact_arith :: arith where
  "exact_arith = \<lparr> f64 = (\<lambda>x. x), f32 = (\<lambda>x. x) \<rparr>"

text \<open>
  Rounding to nearest, ties to even, in a binary format with \<open>p\<close> significant bits whose
  smallest positive number is \<open>2 ^ emin\<close>: the result is a multiple of the spacing of the
  format at the magnitude of \<open>x\<close>, which is \<open>2 ^ (e - p + 1)\<close> for \<open>2 ^ e \<le> \<bar>x\<bar> < 2 ^ (e + 1)\<close>
  and never less than \<open>2 ^ emin\<close> (gradual underflow). \<open>exponent_of y\<close> is the \<open>e\<close> with
  \<open>2 ^ e \<le> y < 2 ^ (e + 1)\<close> for a positive \<open>y\<close>, computed from the number of bits of an
  integer. Binary64 has \<open>p = 53\<close> and \<open>emin = -1074\<close>, binary32 has \<open>p = 24\<close> and
  \<open>emin = -149\<close>.
\<close>

fun bit_length :: "nat \<Rightarrow> nat" where
  "bit_length n = (if n = 0 then 0 else Suc (bit_length (n div 2)))"

declare bit_length.simps [simp del]

definition pow2 :: "int \<Rightarrow> real" where
  "pow2 k = (if 0 \<le> k then 2 ^ nat k else 1 / 2 ^ nat (- k))"

definition exponent_of :: "real \<Rightarrow> int" where
  "exponent_of y =
     (if 1 \<le> y then int (bit_length (nat \<lfloor>y\<rfloor>)) - 1
      else - int (bit_length (nat (\<lceil>1 / y\<rceil> - 1))))"

definition round_half_even :: "real \<Rightarrow> int" where
  "round_half_even x =
     (let n = \<lfloor>x\<rfloor>; d = x - of_int n
      in if d < 1 / 2 then n else if 1 / 2 < d then n + 1 else if even n then n else n + 1)"

definition float_round :: "nat \<Rightarrow> int \<Rightarrow> real \<Rightarrow> real" where
  "float_round p emin x =
     (if x = 0 then 0
      else let q = pow2 (max (exponent_of \<bar>x\<bar> - int p + 1) emin)
           in of_int (round_half_even (x / q)) * q)"

definition ieee_arith :: arith where
  "ieee_arith = \<lparr> f64 = float_round 53 (- 1074), f32 = float_round 24 (- 149) \<rparr>"

subsection \<open>Helpers standing for Python and numpy built-ins\<close>

text \<open>A list comprehension whose element expression can raise: the first exception wins.\<close>

fun collect :: "(error + 'a) list \<Rightarrow> error + 'a list" where
  "collect [] = Inr []"
| "collect (r # rs) =
     (case r of
        Inl e \<Rightarrow> Inl e
      | Inr v \<Rightarrow> (case collect rs of Inl e \<Rightarrow> Inl e | Inr vs \<Rightarrow> Inr (v # vs)))"

text \<open>
  \<^verbatim>\<open>np.linspace(start, stop, num)\<close> with the default \<^verbatim>\<open>endpoint=True\<close>. A negative
  \<^verbatim>\<open>num\<close> raises \<^verbatim>\<open>ValueError\<close>. Otherwise, with \<^verbatim>\<open>delta = stop - start\<close> and
  \<^verbatim>\<open>div = num - 1\<close> (\<open>divisor\<close> below): for \<^verbatim>\<open>num > 1\<close> the samples are \<^verbatim>\<open>arange(num) * step\<close> with
  \<^verbatim>\<open>step = delta / div\<close> (or \<^verbatim>\<open>arange(num) / div * delta\<close> when \<^verbatim>\<open>step == 0\<close>), for
  \<^verbatim>\<open>num <= 1\<close> they are \<^verbatim>\<open>arange(num) * delta\<close>; then \<^verbatim>\<open>start\<close> is added, and for
  \<^verbatim>\<open>num > 1\<close> the last sample is overwritten with \<^verbatim>\<open>stop\<close>.
\<close>

definition linspace :: "arith \<Rightarrow> real \<Rightarrow> real \<Rightarrow> int \<Rightarrow> error + real list" where
  "linspace ar start stop num =
     (if num < 0 then Inl ValueError
      else
        let n = nat num;
            divisor = real (n - 1);
            delta = f64 ar (stop - start);
            step = f64 ar (delta / divisor);
            y = (if 1 < n
                 then (if step = 0
                       then map (\<lambda>i. f64 ar (f64 ar (real i / divisor) * delta)) [0..<n]
                       else map (\<lambda>i. f64 ar (real i * step)) [0..<n])
                 else map (\<lambda>i. f64 ar (real i * delta)) [0..<n]);
            y' = map (\<lambda>v. f64 ar (v + start)) y
        in Inr (if 1 < n then butlast y' @ [stop] else y'))"

text \<open>
  \<^verbatim>\<open>np.searchsorted(a, v, side='right')\<close> on an ascending array: the index of the first
  element strictly greater than \<^verbatim>\<open>v\<close> (the length when there is none).
\<close>

definition searchsorted_right :: "real list \<Rightarrow> real \<Rightarrow> nat" where
  "searchsorted_right a v = length (takeWhile (\<lambda>b. b \<le> v) a)"

text \<open>
  numpy's monotonicity test of the bin edges: \<open>1\<close> for a non-decreasing array (the empty
  and the constant array included), \<open>-1\<close> for a non-increasing one, \<open>0\<close> otherwise.
\<close>

definition monotonicity :: "real list \<Rightarrow> int" where
  "monotonicity bins = (if sorted bins then 1 else if sorted (rev bins) then - 1 else 0)"

text \<open>
  \<^verbatim>\<open>np.digitize([x], bins)[0]\<close> with the default \<^verbatim>\<open>right=False\<close>: edges that are not
  monotonic raise \<^verbatim>\<open>ValueError\<close>; descending edges are reversed and the result inverted.
\<close>

definition digitize :: "real \<Rightarrow> real list \<Rightarrow> error + int" where
  "digitize x bins =
     (let mono = monotonicity bins in
      if mono = 0 then Inl ValueError
      else if mono = - 1 then Inr (int (length bins) - int (searchsorted_right (rev bins) x))
      else Inr (int (searchsorted_right bins x)))"

subsection \<open>The environment interface\<close>

text \<open>
  The two kinds of gym space the code tests for. A \<open>Box\<close> carries its flattened lower and
  upper bound vectors, a \<open>Discrete\<close> its size \<open>n\<close>.
\<close>

datatype space = Box "real list" "real list" | Discrete int

record env =
  observation_space :: space
  action_space :: space

subsection \<open>DiscretizedObservationWrapper\<close>

record DiscretizedObservationWrapper = env +
  n_bins :: int
  val_bins :: "real list list"
  ob_shape :: "nat list"

text \<open>
  \<^verbatim>\<open>__init__(self, env, n_bins=10, low=None, high=None)\<close>. The wrapper starts as a copy of the
  wrapped environment's spaces; the only check is the assertion that the observation
  space is a \<open>Box\<close>. \<^verbatim>\<open>zip\<close> stops at the shorter of the two bound vectors, while the size
  of the new observation space uses \<^verbatim>\<open>len(low)\<close>.
\<close>

definition DiscretizedObservationWrapper_init ::
  "arith \<Rightarrow> env \<Rightarrow> int \<Rightarrow> real list option \<Rightarrow> real list option \<Rightarrow> error + DiscretizedObservationWrapper"
where
  "DiscretizedObservationWrapper_init ar e nb low high =
     (case observation_space e of
        Discrete _ \<Rightarrow> Inl AssertionError
      | Box env_low env_high \<Rightarrow>
          let low' = (case low of None \<Rightarrow> env_low | Some l \<Rightarrow> l);
              high' = (case high of None \<Rightarrow> env_high | Some h \<Rightarrow> h)
          in (case collect (map (\<lambda>(l, h). linspace ar l h (nb + 1)) (zip low' high')) of
                Inl err \<Rightarrow> Inl err
              | Inr bins \<Rightarrow>
                  Inr \<lparr> observation_space = Discrete ((nb + 2) ^ length low'),
                        action_space = action_space e,
                        n_bins = nb,
                        val_bins = bins,
                        ob_shape = [length env_low] \<rparr>))"

text \<open>
  The numbers \<^verbatim>\<open>_convert_to_one_number\<close> computes with. Its digits are the \<^verbatim>\<open>np.int64\<close>
  values \<^verbatim>\<open>np.digitize\<close> returns, the powers \<^verbatim>\<open>(self.n_bins + 2) ** i\<close> are Python
  integers, and \<^verbatim>\<open>sum\<close> starts from the Python integer \<open>0\<close>; a product or a sum is a
  \<^verbatim>\<open>np.int64\<close>, a \<^verbatim>\<open>np.float64\<close> or a Python integer.
\<close>

datatype scalar = NpInt64 int | NpFloat64 real | PyInteger int

text \<open>The result of an \<^verbatim>\<open>int64\<close> operation: the low 64 bits, read as a signed number.\<close>

definition wrap64 :: "int \<Rightarrow> int" where
  "wrap64 x = (x + 2 ^ 63) mod 2 ^ 64 - 2 ^ 63"

definition fits_int64 :: "int \<Rightarrow> bool" where
  "fits_int64 x \<longleftrightarrow> - (2 ^ 63) \<le> x \<and> x < 2 ^ 63"

definition fits_uint64 :: "int \<Rightarrow> bool" where
  "fits_uint64 x \<longleftrightarrow> 0 \<le> x \<and> x < 2 ^ 64"

text \<open>
  A \<^verbatim>\<open>np.int64\<close> multiplied by, or added to, a Python integer (numpy 1.x). The Python
  integer is taken as an \<^verbatim>\<open>int64\<close> when it fits, and the operation wraps around. When it
  only fits an \<^verbatim>\<open>uint64\<close> the operation is carried out in \<^verbatim>\<open>float64\<close>, the common type of
  \<^verbatim>\<open>int64\<close> and \<^verbatim>\<open>uint64\<close>, after both operands are converted. Otherwise numpy falls back
  on Python objects and the result is the Python integer.
\<close>

definition int64_times :: "arith \<Rightarrow> int \<Rightarrow> int \<Rightarrow> scalar" where
  "int64_times ar d p =
     (if fits_int64 p then NpInt64 (wrap64 (d * p))
      else if fits_uint64 p then NpFloat64 (f64 ar (f64 ar (of_int d) * f64 ar (of_int p)))
      else PyInteger (d * p))"

definition int64_plus :: "arith \<Rightarrow> int \<Rightarrow> int \<Rightarrow> scalar" where
  "int64_plus ar a p =
     (if fits_int64 p then NpInt64 (wrap64 (a + p))
      else if fits_uint64 p then NpFloat64 (f64 ar (f64 ar (of_int a) + f64 ar (of_int p)))
      else PyInteger (a + p))"

text \<open>
  \<^verbatim>\<open>+\<close> as \<^verbatim>\<open>sum\<close> applies it to its accumulator and the next item. An integer that meets a
  \<^verbatim>\<open>float64\<close> is converted to \<^verbatim>\<open>float64\<close> first.
\<close>

fun scalar_add :: "arith \<Rightarrow> scalar \<Rightarrow> scalar \<Rightarrow> scalar" where
  "scalar_add ar (NpInt64 a) (NpInt64 b) = NpInt64 (wrap64 (a + b))"
| "scalar_add ar (NpInt64 a) (NpFloat64 y) = NpFloat64 (f64 ar (f64 ar (of_int a) + y))"
| "scalar_add ar (NpInt64 a) (PyInteger q) = int64_plus ar a q"
| "scalar_add ar (NpFloat64 x) (NpInt64 b) = NpFloat64 (f64 ar (x + f64 ar (of_int b)))"
| "scalar_add ar (NpFloat64 x) (NpFloat64 y) = NpFloat64 (f64 ar (x + y))"
| "scalar_add ar (NpFloat64 x) (PyInteger q) = NpFloat64 (f64 ar (x + f64 ar (of_int q)))"
| "scalar_add ar (PyInteger p) (NpInt64 b) = int64_plus ar b p"
| "scalar_add ar (PyInteger p) (NpFloat64 y) = NpFloat64 (f64 ar (f64 ar (of_int p) + y))"
| "scalar_add ar (PyInteger p) (PyInteger q) = PyInteger (p + q)"

text \<open>
  \<^verbatim>\<open>sum([d * ((self.n_bins + 2) ** i) for i, d in enumerate(digits)])\<close>, for the
  \<^verbatim>\<open>np.int64\<close> digits that \<^verbatim>\<open>observation\<close> passes.
\<close>

definition convert_to_one_number :: "arith \<Rightarrow> DiscretizedObservationWrapper \<Rightarrow> int list \<Rightarrow> scalar" where
  "convert_to_one_number ar w digits =
     foldl (scalar_add ar) (PyInteger 0)
       (map (\<lambda>(i, d). int64_times ar d ((n_bins w + 2) ^ i)) (enumerate 0 digits))"

text \<open>The per-dimension bin indices computed by the first statement of \<^verbatim>\<open>observation\<close>.\<close>

definition observation_digits :: "DiscretizedObservationWrapper \<Rightarrow> real list \<Rightarrow> error + int list" where
  "observation_digits w obs = collect (map (\<lambda>(x, bins). digitize x bins) (zip obs (val_bins w)))"

definition observation :: "arith \<Rightarrow> DiscretizedObservationWrapper \<Rightarrow> real list \<Rightarrow> error + scalar" where
  "observation ar w obs =
     (case observation_digits w obs of
        Inl err \<Rightarrow> Inl err
      | Inr digits \<Rightarrow> Inr (convert_to_one_number ar w digits))"

text \<open>
  The decoding the specification describes (it is not part of the source): repeated
  modulo and division by the base, least-significant digit first.
\<close>

fun decode_digits :: "int \<Rightarrow> nat \<Rightarrow> int \<Rightarrow> int list" where
  "decode_digits base 0 s = []"
| "decode_digits base (Suc k) s = (s mod base) # decode_digits base k (s div base)"

subsection \<open>QLearnPolicy\<close>

text \<open>
  A Python number: an integer or a float. \<^verbatim>\<open>epsilon\<close> and \<^verbatim>\<open>epsilon_final\<close> are kept as
  the Python numbers the caller passed, because the source is Python 2 and its \<^verbatim>\<open>/\<close> is
  floor division on two integers. \<open>num_val\<close> is the value of a number, which is what a
  comparison looks at; \<open>to_float\<close> is its conversion to a float, which rounds an integer
  that is not a double.
\<close>

datatype pynum = PyInt int | PyFloat real

fun num_val :: "pynum \<Rightarrow> real" where
  "num_val (PyInt i) = of_int i"
| "num_val (PyFloat x) = x"



text \<open>
  \<^verbatim>\<open>x / n\<close> in Python 2, for a Python integer \<^verbatim>\<open>n\<close> other than \<open>0\<close>: the floor of the
  quotient when \<^verbatim>\<open>x\<close> is an integer too, the quotient in double precision when \<^verbatim>\<open>x\<close> is
  a float.
\<close>

fun py_div :: "arith \<Rightarrow> pynum \<Rightarrow> int \<Rightarrow> pynum" where
  "py_div ar (PyInt a) n = PyInt (a div n)"
| "py_div ar (PyFloat x) n = PyFloat (f64 ar (x / f64 ar (of_int n)))"

text \<open>
  The agent's fields. \<open>Q\<close> is the \<^verbatim>\<open>n_states\<close> by \<^verbatim>\<open>n_actions\<close> array, kept as a list of
  rows. \<open>gamma\<close>, \<open>alpha\<close> and \<open>alpha_decay\<close> are modelled by their values: they are floats,
  or integers below \<open>2 ^ 53\<close> in magnitude, which act in the products they enter as the
  floats of the same value. The reference to the environment is not a field of the
  model: what the environment and the random number generator do is passed to the
  operations that use them (see \<open>world_ops\<close> below).
\<close>

record QLearnPolicy =
  gamma :: real
  alpha :: real
  alpha_decay :: real
  epsilon :: pynum
  epsilon_final :: pynum
  n_actions :: int
  n_states :: int
  actions :: "int list"
  Q :: "real list list"

text \<open>
  \<^verbatim>\<open>__init__(self, env, gamma=0.99, alpha=0.5, alpha_decay=0.998, epsilon=1.0,
  epsilon_final=0.05)\<close>. The two assertions test the kinds of the spaces; \<^verbatim>\<open>np.zeros\<close>
  raises \<^verbatim>\<open>ValueError\<close> for a negative dimension. The hyperparameters are stored as given.
\<close>

definition QLearnPolicy_init ::
  "'a env_scheme \<Rightarrow> real \<Rightarrow> real \<Rightarrow> real \<Rightarrow> pynum \<Rightarrow> pynum \<Rightarrow> error + QLearnPolicy"
where
  "QLearnPolicy_init e g a ad eps eps_final =
     (case action_space e of
        Box _ _ \<Rightarrow> Inl AssertionError
      | Discrete na \<Rightarrow>
          (case observation_space e of
             Box _ _ \<Rightarrow> Inl AssertionError
           | Discrete ns \<Rightarrow>
               if ns < 0 \<or> na < 0 then Inl ValueError
               else Inr \<lparr> gamma = g, alpha = a, alpha_decay = ad, epsilon = eps,
                          epsilon_final = eps_final, n_actions = na, n_states = ns,
                          actions = map int [0..<nat na],
                          Q = replicate (nat ns) (replicate (nat na) 0) \<rparr>))"

text \<open>
  numpy's integer indexing along an axis of length \<open>n\<close>: an index in \<open>[0, n)\<close> is used as it
  is, an index in \<open>[-n, 0)\<close> counts from the end, anything else raises \<^verbatim>\<open>IndexError\<close>.
\<close>

definition np_index :: "nat \<Rightarrow> int \<Rightarrow> error + nat" where
  "np_index n i =
     (if 0 \<le> i \<and> i < int n then Inr (nat i)
      else if - int n \<le> i \<and> i < 0 then Inr (nat (i + int n))
      else Inl IndexError)"

text \<open>\<^verbatim>\<open>np.max\<close> of a one-dimensional array: \<^verbatim>\<open>ValueError\<close> on the empty array.\<close>

definition np_max :: "real list \<Rightarrow> error + real" where
  "np_max xs = (case xs of [] \<Rightarrow> Inl ValueError | x # ys \<Rightarrow> Inr (fold max ys x))"

text \<open>\<^verbatim>\<open>self.Q[state, :]\<close>\<close>

definition Q_row :: "QLearnPolicy \<Rightarrow> int \<Rightarrow> error + real list" where
  "Q_row p state =
     (case np_index (length (Q p)) state of Inl err \<Rightarrow> Inl err | Inr i \<Rightarrow> Inr (Q p ! i))"

text \<open>The position that \<^verbatim>\<open>self.Q[state, action]\<close> reads and writes.\<close>

definition Q_cell :: "QLearnPolicy \<Rightarrow> int \<Rightarrow> int \<Rightarrow> error + nat \<times> nat" where
  "Q_cell p state action =
     (case np_index (length (Q p)) state of
        Inl err \<Rightarrow> Inl err
      | Inr i \<Rightarrow>
          (case np_index (length (Q p ! i)) action of
             Inl err \<Rightarrow> Inl err
           | Inr j \<Rightarrow> Inr (i, j)))"

text \<open>
  \<^verbatim>\<open>self.Q[state, action] += x\<close>: the sum is formed in double precision and stored into
  the single-precision table.

  \<^verbatim>\<open>_update_q_value(self, state, action, new_state, reward, done)\<close>. In the non-terminal
  branch the row of \<^verbatim>\<open>new_state\<close> is read and maximised before the cell is touched.
\<close>

definition Q_increment :: "arith \<Rightarrow> QLearnPolicy \<Rightarrow> nat \<Rightarrow> nat \<Rightarrow> real \<Rightarrow> QLearnPolicy" where
  "Q_increment ar p i j x =
     p\<lparr>Q := (Q p)[i := (Q p ! i)[j := f32 ar (f64 ar (Q p ! i ! j + x))]]\<rparr>"

definition update_q_value ::
  "arith \<Rightarrow> QLearnPolicy \<Rightarrow> int \<Rightarrow> int \<Rightarrow> int \<Rightarrow> real \<Rightarrow> bool \<Rightarrow> error + QLearnPolicy"
where
  "update_q_value ar p state action new_state reward done =
     (if done then
        (case Q_cell p state action of
           Inl err \<Rightarrow> Inl err
         | Inr (i, j) \<Rightarrow>
             Inr (Q_increment ar p i j
                    (f64 ar (alpha p * f64 ar (reward - Q p ! i ! j)))))
      else
        (case Q_row p new_state of
           Inl err \<Rightarrow> Inl err
         | Inr row \<Rightarrow>
             (case np_max row of
                Inl err \<Rightarrow> Inl err
              | Inr max_q_next \<Rightarrow>
                  (case Q_cell p state action of
                     Inl err \<Rightarrow> Inl err
                   | Inr (i, j) \<Rightarrow>
                       Inr (Q_increment ar p i j
                              (f64 ar (alpha p
                                 * f64 ar (f64 ar (reward + f64 ar (gamma p * max_q_next))
                                           - Q p ! i ! j))))))))"

subsection \<open>The environment and the random number generator\<close>

text \<open>
  What the agent calls but does not define: the environment's \<^verbatim>\<open>reset\<close> and \<^verbatim>\<open>step\<close>,
  \<^verbatim>\<open>env.action_space.sample()\<close>, \<^verbatim>\<open>np.random.rand()\<close> and the draw behind
  \<^verbatim>\<open>np.random.choice\<close>. Each takes the state \<open>'w\<close> of the outside world (the simulator and
  the generator) and returns its result with the new state. \<open>random_draw n\<close> is the
  generator's draw for a choice among \<open>n\<close> candidates; it is reduced modulo \<open>n\<close> where it
  is used, so every draw selects a candidate and every candidate is selected by a draw.
\<close>

record 'w world_ops =
  env_reset :: "'w \<Rightarrow> int \<times> 'w"
  env_step :: "int \<Rightarrow> 'w \<Rightarrow> (int \<times> real \<times> bool) \<times> 'w"
  action_space_sample :: "'w \<Rightarrow> int \<times> 'w"
  random_rand :: "'w \<Rightarrow> real \<times> 'w"
  random_draw :: "nat \<Rightarrow> 'w \<Rightarrow> nat \<times> 'w"

text \<open>\<^verbatim>\<open>np.random.choice(a)\<close> on a one-dimensional array: \<^verbatim>\<open>ValueError\<close> when it is empty.\<close>

definition random_choice :: "'w world_ops \<Rightarrow> int list \<Rightarrow> 'w \<Rightarrow> (error + int) \<times> 'w" where
  "random_choice ops a w =
     (if a = [] then (Inl ValueError, w)
      else let (k, w') = random_draw ops (length a) w in (Inr (a ! (k mod length a)), w'))"

text \<open>
  The test \<^verbatim>\<open>training and self.epsilon > 0. and np.random.rand() < self.epsilon\<close>: the
  generator is consulted only when the first two conjuncts hold.
\<close>

definition explores :: "'w world_ops \<Rightarrow> QLearnPolicy \<Rightarrow> bool \<Rightarrow> 'w \<Rightarrow> bool \<times> 'w" where
  "explores ops p training w =
     (if training \<and> num_val (epsilon p) > 0
      then let (u, w') = random_rand ops w in (u < num_val (epsilon p), w')
      else (False, w))"

text \<open>
  \<^verbatim>\<open>np.arange(self.n_actions)[self.Q[state, :] == max_q]\<close>: a boolean mask whose length is
  not the length of the indexed array raises \<^verbatim>\<open>IndexError\<close>.
\<close>

definition actions_with_max_q :: "QLearnPolicy \<Rightarrow> real list \<Rightarrow> real \<Rightarrow> error + int list" where
  "actions_with_max_q p row max_q =
     (if length row \<noteq> nat (n_actions p) then Inl IndexError
      else Inr (map int (filter (\<lambda>a. row ! a = max_q) [0..<nat (n_actions p)])))"

text \<open>\<^verbatim>\<open>act(self, state, training)\<close>\<close>

definition act :: "'w world_ops \<Rightarrow> QLearnPolicy \<Rightarrow> int \<Rightarrow> bool \<Rightarrow> 'w \<Rightarrow> (error + int) \<times> 'w" where
  "act ops p state training w =
     (let (explore, w1) = explores ops p training w in
      if explore then (let (a, w2) = action_space_sample ops w1 in (Inr a, w2))
      else
        (case Q_row p state of
           Inl err \<Rightarrow> (Inl err, w1)
         | Inr row \<Rightarrow>
             (case np_max row of
                Inl err \<Rightarrow> (Inl err, w1)
              | Inr max_q \<Rightarrow>
                  (case actions_with_max_q p row max_q of
                     Inl err \<Rightarrow> (Inl err, w1)
                   | Inr candidates \<Rightarrow> random_choice ops candidates w1))))"

subsection \<open>Training\<close>








subsection \<open>Vocabulary of the statements about the discretiser\<close>

text \<open>
  The bound vectors the constructor works with: the caller's overrides where given, the
  bounds of the wrapped environment's \<open>Box\<close> otherwise.
\<close>

definition bounds :: "env \<Rightarrow> real list option \<Rightarrow> real list option \<Rightarrow> (real list \<times> real list) option" where
  "bounds e low high =
     (case observation_space e of
        Discrete _ \<Rightarrow> None
      | Box env_low env_high \<Rightarrow>
          Some (case low of None \<Rightarrow> env_low | Some l \<Rightarrow> l, case high of None \<Rightarrow> env_high | Some h \<Rightarrow> h))"

text \<open>
  The digitisation rule of the specification: \<open>d\<close> is the index of the first edge strictly
  greater than \<open>x\<close>, and the number of edges when there is no such edge.
\<close>

definition first_edge_greater :: "real list \<Rightarrow> real \<Rightarrow> int \<Rightarrow> bool" where
  "first_edge_greater bins x d \<longleftrightarrow>
     0 \<le> d \<and> d \<le> int (length bins) \<and> (\<forall>j<nat d. bins ! j \<le> x)
       \<and> (nat d < length bins \<longrightarrow> x < bins ! nat d)"

text \<open>
  What the statements about machine arithmetic need of double-precision rounding: it is
  monotonic and odd, and its relative error is at most \<open>2 ^ -53\<close> on every number that is
  not below the smallest normal double, \<open>2 ^ -1022\<close>, in magnitude. Both \<open>exact_arith\<close> and
  \<open>ieee_arith\<close> have these properties (lemmas \<open>rounding_laws_exact\<close> and
  \<open>rounding_laws_ieee\<close>).
\<close>

definition rounding_laws :: "arith \<Rightarrow> bool" where
  "rounding_laws ar \<longleftrightarrow>
     (\<forall>x y. x \<le> y \<longrightarrow> f64 ar x \<le> f64 ar y)
       \<and> (\<forall>x. f64 ar (- x) = - f64 ar x)
       \<and> (\<forall>x. 1 / 2 ^ 1022 \<le> \<bar>x\<bar> \<longrightarrow> \<bar>f64 ar x - x\<bar> \<le> \<bar>x\<bar> / 2 ^ 53)"

text \<open>
  Sample \<open>i\<close> of \<^verbatim>\<open>np.linspace(start, stop, n)\<close> before the last one is overwritten, as
  \<open>linspace\<close> computes it.
\<close>

definition linspace_sample :: "arith \<Rightarrow> real \<Rightarrow> real \<Rightarrow> nat \<Rightarrow> nat \<Rightarrow> real" where
  "linspace_sample ar start stop n i =
     (let divisor = real (n - 1);
          delta = f64 ar (stop - start);
          step = f64 ar (delta / divisor);
          raw = (if 1 < n
                 then (if step = 0 then f64 ar (f64 ar (real i / divisor) * delta)
                       else f64 ar (real i * step))
                 else f64 ar (real i * delta))
      in f64 ar (raw + start))"

text \<open>
  What the statements need of the \<open>n\<close> edges of a dimension with bounds \<open>l\<close> and \<open>h\<close>: they
  ascend from \<open>l\<close> to \<open>h\<close> within \<open>[l, h]\<close> when \<open>l \<le> h\<close>, and descend when \<open>h \<le> l\<close>.
\<close>

definition edge_list :: "real \<Rightarrow> real \<Rightarrow> nat \<Rightarrow> real list \<Rightarrow> bool" where
  "edge_list l h n ys \<longleftrightarrow>
     length ys = n
       \<and> (l \<le> h \<longrightarrow> sorted ys \<and> (\<forall>b\<in>set ys. l \<le> b \<and> b \<le> h))
       \<and> (h \<le> l \<longrightarrow> sorted (rev ys))
       \<and> (0 < n \<longrightarrow> hd ys = l)
       \<and> (1 < n \<longrightarrow> last ys = h)"

text \<open>A real number that double-precision rounding leaves as it is: a double.\<close>

definition representable :: "arith \<Rightarrow> real \<Rightarrow> bool" where
  "representable ar x \<longleftrightarrow> f64 ar x = x"

text \<open>
  The bounds \<open>l\<close> and \<open>h\<close> of a dimension with \<open>nb\<close> bins for which the statements about
  the edges are made: both are doubles of magnitude at most \<open>2 ^ 1022\<close>, so that no
  operation of \<^verbatim>\<open>np.linspace\<close> overflows, and they are either equal or at least
  \<open>nb * 2 ^ -1021\<close> apart, so that the step between two edges is a normal double. For
  closer bounds the step is rounded with a large relative error, and the edges need not
  be monotonic.
\<close>

definition regular_bounds :: "arith \<Rightarrow> int \<Rightarrow> real \<Rightarrow> real \<Rightarrow> bool" where
  "regular_bounds ar nb l h \<longleftrightarrow>
     representable ar l \<and> representable ar h \<and> \<bar>l\<bar> \<le> 2 ^ 1022 \<and> \<bar>h\<bar> \<le> 2 ^ 1022
       \<and> (l = h \<or> of_int nb / 2 ^ 1021 \<le> \<bar>h - l\<bar>)"

text \<open>
  The mixed-radix number of the specification: the sum over \<open>i\<close> of \<open>d\<^sub>i * b ^ i\<close>, in
  unbounded integers.
\<close>

definition mixed_radix :: "int \<Rightarrow> int list \<Rightarrow> int" where
  "mixed_radix b ds = sum_list (map (\<lambda>(i, d). d * b ^ i) (enumerate 0 ds))"

text \<open>
  The integer a state holds, when it is one: a \<^verbatim>\<open>np.int64\<close> or a Python integer, but not
  a \<^verbatim>\<open>np.float64\<close>.
\<close>

fun integer_value :: "scalar \<Rightarrow> int option" where
  "integer_value (NpInt64 v) = Some v"
| "integer_value (PyInteger v) = Some v"
| "integer_value (NpFloat64 x) = None"


subsection \<open>Vocabulary of the statements about the agent\<close>

text \<open>Every cell of the value table is at most \<open>B\<close> in absolute value.\<close>

definition Q_bounded :: "real \<Rightarrow> QLearnPolicy \<Rightarrow> bool" where
  "Q_bounded B p \<longleftrightarrow> (\<forall>row\<in>set (Q p). \<forall>q\<in>set row. \<bar>q\<bar> \<le> B)"

text \<open>
  A finite sequence of calls of \<^verbatim>\<open>_update_q_value\<close>, each given by its five arguments. A
  call that raises leaves the agent as it is and ends the sequence; the result is the
  agent at the end and the exception, if any.
\<close>

fun update_calls :: "arith \<Rightarrow> QLearnPolicy \<Rightarrow> (int \<times> int \<times> int \<times> real \<times> bool) list \<Rightarrow> QLearnPolicy \<times> error option" where
  "update_calls ar p [] = (p, None)"
| "update_calls ar p ((state, action, new_state, reward, done) # calls) =
     (case update_q_value ar p state action new_state reward done of
        Inl err \<Rightarrow> (p, Some err)
      | Inr p' \<Rightarrow> update_calls ar p' calls)"

text \<open>
  Action \<open>a\<close> achieves the maximum over the row of state index \<open>i\<close>: it is an action, and no
  cell of the row is greater than its cell.
\<close>

definition is_max_action :: "QLearnPolicy \<Rightarrow> nat \<Rightarrow> int \<Rightarrow> bool" where
  "is_max_action p i a \<longleftrightarrow>
     0 \<le> a \<and> a < n_actions p \<and> nat a < length (Q p ! i)
       \<and> (\<forall>q\<in>set (Q p ! i). q \<le> Q p ! i ! nat a)"

subsection \<open>A concrete instance\<close>

text \<open>
  The discretiser of the script at the end of the source file: eight bins per dimension
  and the four override bounds of the cart-pole task, over an environment whose own
  box is wider. \<open>example_wrapper\<close> is the wrapper the constructor returns for it (lemma
  \<open>example_init\<close>).
\<close>

definition example_env :: env where
  "example_env = \<lparr> observation_space = Box [- 4.8, - 10, - 0.42, - 10] [4.8, 10, 0.42, 10],
                     action_space = Discrete 2 \<rparr>"

definition example_low :: "real list" where "example_low = [- 2.4, - 2.0, - 0.42, - 3.5]"
definition example_high :: "real list" where "example_high = [2.4, 2.0, 0.42, 3.5]"

definition example_obs :: "real list" where "example_obs = [0.1, - 0.3, 0.02, 3.4]"

definition example_wrapper :: DiscretizedObservationWrapper where
  "example_wrapper =
     \<lparr> observation_space = Discrete 10000, action_space = Discrete 2, n_bins = 8,
       val_bins = [[- 2.4, - 1.8, - 1.2, - 0.6, 0, 0.6, 1.2, 1.8, 2.4],
                   [- 2, - 1.5, - 1, - 0.5, 0, 0.5, 1, 1.5, 2],
                   [- 0.42, - 0.315, - 0.21, - 0.105, 0, 0.105, 0.21, 0.315, 0.42],
                   [- 3.5, - 2.625, - 1.75, - 0.875, 0, 0.875, 1.75, 2.625, 3.5]],
       ob_shape = [4] \<rparr>"

text \<open>
  A small agent: three states, two actions, the default hyperparameters.
  \<open>example_zero_policy\<close> is what the constructor returns for \<open>example_discrete_env\<close> (lemma
  \<open>example_policy_init\<close>); \<open>example_policy\<close> has a table with a tie in its last row.
\<close>

definition example_discrete_env :: env where
  "example_discrete_env = \<lparr> observation_space = Discrete 3, action_space = Discrete 2 \<rparr>"

definition example_zero_policy :: QLearnPolicy where
  "example_zero_policy =
     \<lparr> gamma = 0.99, alpha = 0.5, alpha_decay = 0.998, epsilon = PyFloat 1, epsilon_final = PyFloat 0.05,
       n_actions = 2, n_states = 3, actions = [0, 1],
       Q = [[0, 0], [0, 0], [0, 0]] \<rparr>"

definition example_policy :: QLearnPolicy where
  "example_policy =
     \<lparr> gamma = 0.99, alpha = 0.5, alpha_decay = 0.998, epsilon = PyFloat 1, epsilon_final = PyFloat 0.05,
       n_actions = 2, n_states = 3, actions = [0, 1],
       Q = [[0, 0], [1, 3], [2, 2]] \<rparr>"


text \<open>
  An outside world whose state is a counter: every episode ends after one step with
  reward \<open>1\<close>, the generator's uniform draw is always \<open>1/2\<close>, and its integer draws
  follow the counter.
\<close>

definition example_ops :: "nat world_ops" where
  "example_ops =
     \<lparr> env_reset = (\<lambda>w. (0, w)),
       env_step = (\<lambda>a w. ((1, 1, True), w)),
       action_space_sample = (\<lambda>w. (int (w mod 2), Suc w)),
       random_rand = (\<lambda>w. (1 / 2, Suc w)),
       random_draw = (\<lambda>n w. (w, Suc w)) \<rparr>"

text \<open>
  The same agent as Python builds it for \<^verbatim>\<open>epsilon_final=0.1\<close>: every hyperparameter is
  the double-precision number its decimal literal denotes. \<open>example_tenth\<close> is the double
  nearest to \<open>0.1\<close>.
\<close>

definition example_tenth :: real where
  "example_tenth = 3602879701896397 / 36028797018963968"



text \<open>
  A one-dimensional discretiser in machine arithmetic: \<^verbatim>\<open>n_bins=8, low=[-2.4], high=[2.4]\<close>,
  the bounds being the doubles nearest to \<open>-2.4\<close> and \<open>2.4\<close>. \<open>example_float_wrapper\<close> is the
  wrapper the constructor returns for it under \<open>ieee_arith\<close> (lemma \<open>example_float_init\<close>);
  its edges are those \<^verbatim>\<open>np.linspace(-2.4, 2.4, 9)\<close> prints as \<^verbatim>\<open>-2.4, -1.7999999999999998,
  -1.2, -0.6000000000000001, 0.0, 0.6000000000000001, 1.1999999999999997,
  1.8000000000000003, 2.4\<close>.
\<close>

definition example_float_low :: "real list" where
  "example_float_low = [- (5404319552844595 / 2251799813685248)]"

definition example_float_high :: "real list" where
  "example_float_high = [5404319552844595 / 2251799813685248]"

definition example_float_wrapper :: DiscretizedObservationWrapper where
  "example_float_wrapper =
     \<lparr> observation_space = Discrete 10, action_space = Discrete 2, n_bins = 8,
       val_bins = [[- (5404319552844595 / 2251799813685248),
                    - (2026619832316723 / 1125899906842624),
                    - (5404319552844595 / 4503599627370496),
                    - (1351079888211149 / 2251799813685248),
                    0,
                    1351079888211149 / 2251799813685248,
                    2702159776422297 / 2251799813685248,
                    4053239664633447 / 2251799813685248,
                    5404319552844595 / 2251799813685248]],
       ob_shape = [4] \<rparr>"

text \<open>
  Discretisers of many dimensions: \<^verbatim>\<open>n_bins=8\<close> over an environment whose box is the unit
  cube of dimension \<open>d\<close>. \<open>example_unit_wrapper d\<close> is the wrapper the constructor returns for
  it under \<open>ieee_arith\<close> (lemma \<open>example_unit_init\<close>); the edges are the multiples of \<open>1/8\<close>,
  and it has \<open>10 ^ d\<close> states.
\<close>

definition example_unit_env :: "nat \<Rightarrow> env" where
  "example_unit_env d =
     \<lparr> observation_space = Box (replicate d 0) (replicate d 1), action_space = Discrete 2 \<rparr>"

definition example_unit_wrapper :: "nat \<Rightarrow> DiscretizedObservationWrapper" where
  "example_unit_wrapper d =
     \<lparr> observation_space = Discrete (10 ^ d), action_space = Discrete 2, n_bins = 8,
       val_bins = replicate d [0, 1 / 8, 2 / 8, 3 / 8, 4 / 8, 5 / 8, 6 / 8, 7 / 8, 1],
       ob_shape = [d] \<rparr>"

text \<open>
  A one-dimensional discretiser with large bounds: \<^verbatim>\<open>n_bins=8, low=[2.0**61],
  high=[2.0**62]\<close>. \<open>example_large_wrapper\<close> is the wrapper the constructor returns for it
  under \<open>ieee_arith\<close> (lemma \<open>example_large_init\<close>). Doubles of this size are \<open>512\<close> apart,
  so that \<^verbatim>\<open>low[0] - 100\<close> is \<^verbatim>\<open>low[0]\<close> again.
\<close>

definition example_large_low :: "real list" where "example_large_low = [2 ^ 61]"
definition example_large_high :: "real list" where "example_large_high = [2 ^ 62]"

definition example_large_wrapper :: DiscretizedObservationWrapper where
  "example_large_wrapper =
     \<lparr> observation_space = Discrete 10, action_space = Discrete 2, n_bins = 8,
       val_bins = [map (\<lambda>i. 2 ^ 61 + real i * 2 ^ 58) [0..<9]],
       ob_shape = [4] \<rparr>"

section \<open>The rounding functions\<close>

lemma bit_length_numeral [simp]:
  "bit_length 0 = 0"
  "bit_length (Suc 0) = Suc 0"
  "bit_length (numeral k) = Suc (bit_length (numeral k div 2))"
  by (simp_all add: bit_length.simps [of 0] bit_length.simps [of "Suc 0"]
      bit_length.simps [of "numeral k"])

lemma bit_length_bounds: "0 < n \<Longrightarrow> 2 ^ (bit_length n - 1) \<le> n \<and> n < 2 ^ bit_length n"
proof (induction n rule: bit_length.induct)
  case (1 n)
  show ?case
  proof (cases "n div 2 = 0")
    case True
    with 1 have "n = 1" by (cases n) auto
    then show ?thesis by (simp add: bit_length.simps [of 1] bit_length.simps [of 0])
  next
    case False
    then have pos: "0 < n div 2" by simp
    from 1 have n: "n \<noteq> 0" by simp
    let ?b = "bit_length (n div 2)"
    from "1.IH" [OF n pos] have lo: "2 ^ (?b - 1) \<le> n div 2" and hi: "n div 2 < 2 ^ ?b" by simp_all
    have b: "bit_length n = Suc ?b" using n by (simp add: bit_length.simps [of n])
    have bpos: "0 < ?b" using pos by (simp add: bit_length.simps [of "n div 2"])
    then have "(2::nat) ^ ?b = 2 * 2 ^ (?b - 1)" by (cases ?b) simp_all
    with lo have "2 ^ ?b \<le> n" by linarith
    moreover from hi have "n < 2 * 2 ^ ?b" by linarith
    ultimately show ?thesis by (simp add: b)
  qed
qed

lemma pow2_pos [simp]: "0 < pow2 k"
  by (simp add: pow2_def)

lemma pow2_Suc: "pow2 (k + 1) = 2 * pow2 k"
proof (cases "0 \<le> k")
  case True
  then show ?thesis by (simp add: pow2_def nat_add_distrib)
next
  case False
  then have "nat (- k) = Suc (nat (- (k + 1)))" by simp
  then show ?thesis using False by (simp add: pow2_def del: nat_diff_distrib nat_minus_as_int)
qed

lemma pow2_nat: "pow2 (int n) = 2 ^ n"
  by (simp add: pow2_def)

lemma pow2_neg_nat: "pow2 (- int n) = 1 / 2 ^ n"
  by (auto simp: pow2_def)

lemma pow2_nonzero [simp]: "pow2 k \<noteq> 0"
  by (rule not_sym) (rule less_imp_neq [OF pow2_pos])

lemma pow2_nonneg [simp]: "0 \<le> pow2 k"
  by (rule less_imp_le) (rule pow2_pos)

lemma abs_pow2 [simp]: "\<bar>pow2 k\<bar> = pow2 k"
  by (rule abs_of_pos) (rule pow2_pos)

lemma exponent_of_bounds:
  assumes "0 < y"
  shows "pow2 (exponent_of y) \<le> y \<and> y < pow2 (exponent_of y + 1)"
proof (cases "1 \<le> y")
  case True
  let ?n = "nat \<lfloor>y\<rfloor>"
  have n: "0 < ?n" using True by simp
  let ?b = "bit_length ?n"
  from bit_length_bounds [OF n] have lo: "2 ^ (?b - 1) \<le> ?n" and hi: "?n < 2 ^ ?b" by simp_all
  have bpos: "0 < ?b" using n by (simp add: bit_length.simps [of ?n])
  have e: "exponent_of y = int (?b - 1)" using True bpos by (simp add: exponent_of_def)
  have ny: "real ?n \<le> y" using True by simp
  have "real (2 ^ (?b - 1)) \<le> real ?n" using lo by (rule of_nat_mono)
  then have "(2::real) ^ (?b - 1) \<le> real ?n" by simp
  from this ny have "(2::real) ^ (?b - 1) \<le> y" by (rule order_trans)
  then have 1: "pow2 (exponent_of y) \<le> y" by (simp only: e pow2_nat)
  have "y < real ?n + 1" using True by simp
  moreover have "real ?n + 1 \<le> 2 ^ ?b"
  proof -
    from hi have "Suc ?n \<le> 2 ^ ?b" by (rule Suc_leI)
    then have "real (Suc ?n) \<le> real (2 ^ ?b)" by (rule of_nat_mono)
    then show ?thesis by (simp only: of_nat_Suc of_nat_power of_nat_numeral)
  qed
  moreover have "pow2 (exponent_of y + 1) = 2 ^ ?b"
  proof -
    have "exponent_of y + 1 = int ?b" using bpos by (simp add: e)
    then show ?thesis by (simp add: pow2_nat)
  qed
  ultimately have 2: "y < pow2 (exponent_of y + 1)" by simp
  from 1 2 show ?thesis ..
next
  case False
  then have y1: "y < 1" by simp
  let ?m = "nat (\<lceil>1 / y\<rceil> - 1)"
  have inv: "1 < 1 / y" using assms y1 by simp
  then have c: "2 \<le> \<lceil>1 / y\<rceil>" by linarith
  then have m: "0 < ?m" by simp
  let ?b = "bit_length ?m"
  from bit_length_bounds [OF m] have lo: "2 ^ (?b - 1) \<le> ?m" and hi: "?m < 2 ^ ?b" by simp_all
  have bpos: "0 < ?b" using m by (simp add: bit_length.simps [of ?m])
  have e: "exponent_of y = - int ?b" using False by (simp add: exponent_of_def)
  have k0: "0 \<le> \<lceil>1 / y\<rceil> - 1" using c by linarith
  have "real ?m = of_int (\<lceil>1 / y\<rceil> - 1)" using k0 by (simp only: of_nat_nat)
  then have m_real: "real ?m = of_int \<lceil>1 / y\<rceil> - 1" by simp
  have "1 / y \<le> real ?m + 1" by (simp add: m_real)
  also have "real ?m + 1 \<le> 2 ^ ?b"
  proof -
    from hi have "Suc ?m \<le> 2 ^ ?b" by (rule Suc_leI)
    then have "real (Suc ?m) \<le> real (2 ^ ?b)" by (rule of_nat_mono)
    then show ?thesis by (simp only: of_nat_Suc of_nat_power of_nat_numeral)
  qed
  finally have "1 / y \<le> 2 ^ ?b" .
  then have "1 / 2 ^ ?b \<le> y" using assms by (simp add: field_simps)
  then have 1: "pow2 (exponent_of y) \<le> y" by (simp add: e pow2_neg_nat)
  have "real (2 ^ (?b - 1)) \<le> real ?m" using lo by (rule of_nat_mono)
  then have "(2::real) ^ (?b - 1) \<le> real ?m" by simp
  also have "real ?m < 1 / y" by (simp add: m_real) linarith
  finally have "2 ^ (?b - 1) < 1 / y" .
  then have "y < 1 / 2 ^ (?b - 1)" using assms by (simp add: field_simps)
  moreover have "pow2 (exponent_of y + 1) = 1 / 2 ^ (?b - 1)"
  proof -
    have "exponent_of y + 1 = - int (?b - 1)" using bpos by (simp add: e)
    then show ?thesis by (simp add: pow2_neg_nat)
  qed
  ultimately have 2: "y < pow2 (exponent_of y + 1)" by simp
  from 1 2 show ?thesis ..
qed

lemma round_half_even_error: "\<bar>of_int (round_half_even x) - x\<bar> \<le> 1 / 2"
proof -
  have "of_int \<lfloor>x\<rfloor> \<le> x" "x < of_int \<lfloor>x\<rfloor> + 1" by linarith+
  then show ?thesis by (auto simp: round_half_even_def Let_def)
qed

lemma float_round_error:
  "\<bar>float_round p emin x - x\<bar> \<le> pow2 (max (exponent_of \<bar>x\<bar> - int p + 1) emin) / 2"
proof (cases "x = 0")
  case True
  then show ?thesis by (simp add: float_round_def less_imp_le)
next
  case False
  let ?q = "pow2 (max (exponent_of \<bar>x\<bar> - int p + 1) emin)"
  have q: "0 < ?q" by simp
  have "float_round p emin x - x = (of_int (round_half_even (x / ?q)) - x / ?q) * ?q"
    using False q by (simp add: float_round_def Let_def algebra_simps)
  then have "\<bar>float_round p emin x - x\<bar> = \<bar>of_int (round_half_even (x / ?q)) - x / ?q\<bar> * ?q"
    using q by (simp add: abs_mult)
  also have "\<dots> \<le> (1 / 2) * ?q"
    using round_half_even_error [of "x / ?q"] q by (intro mult_right_mono) simp_all
  finally show ?thesis by simp
qed

lemmas float_round_eval = float_round_def exponent_of_def pow2_def round_half_even_def Let_def

lemma ieee_arith_simps [simp]:
  "f64 ieee_arith = float_round 53 (- 1074)" "f32 ieee_arith = float_round 24 (- 149)"
  by (simp_all add: ieee_arith_def)

lemma float_round_0 [simp]: "float_round p emin 0 = 0"
  by (simp add: float_round_def)

lemma exact_arith_simps [simp]: "f64 exact_arith x = x" "f32 exact_arith x = x"
  by (simp_all add: exact_arith_def)

lemma pow2_powi: "pow2 k = 2 powi k"
  by (simp add: pow2_def power_int_def field_simps power_one_over)

lemma pow2_add: "pow2 (a + b) = pow2 a * pow2 b"
  by (simp add: pow2_powi power_int_add)

lemma pow2_mono: "a \<le> b \<Longrightarrow> pow2 a \<le> pow2 b"
  by (simp add: pow2_powi power_int_increasing)

lemma pow2_strict_mono: "a < b \<Longrightarrow> pow2 a < pow2 b"
  by (simp add: pow2_powi power_int_strict_increasing)

lemma exponent_of_mono:
  assumes "0 < x" and "x \<le> y"
  shows "exponent_of x \<le> exponent_of y"
proof (rule ccontr)
  assume "\<not> exponent_of x \<le> exponent_of y"
  then have "exponent_of y + 1 \<le> exponent_of x" by simp
  then have "pow2 (exponent_of y + 1) \<le> pow2 (exponent_of x)" by (rule pow2_mono)
  moreover have "y < pow2 (exponent_of y + 1)" using exponent_of_bounds [of y] assms by simp
  moreover have "pow2 (exponent_of x) \<le> x" using exponent_of_bounds [OF assms(1)] by simp
  ultimately show False using assms(2) by linarith
qed

lemma round_half_even_bounds:
  "of_int \<lfloor>t\<rfloor> \<le> (of_int (round_half_even t) :: real) \<and> round_half_even t \<le> \<lfloor>t\<rfloor> + 1"
  by (simp add: round_half_even_def Let_def)

lemma round_half_even_mono:
  assumes "s \<le> t"
  shows "round_half_even s \<le> round_half_even t"
proof (cases "\<lfloor>s\<rfloor> = \<lfloor>t\<rfloor>")
  case True
  with assms have "s - of_int \<lfloor>s\<rfloor> \<le> t - of_int \<lfloor>t\<rfloor>" by simp
  with True show ?thesis by (auto simp: round_half_even_def Let_def)
next
  case False
  have "\<lfloor>s\<rfloor> \<le> \<lfloor>t\<rfloor>" using assms by (rule floor_mono)
  with False have "\<lfloor>s\<rfloor> + 1 \<le> \<lfloor>t\<rfloor>" by simp
  moreover have "round_half_even s \<le> \<lfloor>s\<rfloor> + 1" using round_half_even_bounds [of s] by simp
  moreover have "\<lfloor>t\<rfloor> \<le> round_half_even t" using round_half_even_bounds [of t] by simp
  ultimately show ?thesis by linarith
qed

lemma round_half_even_of_int [simp]: "round_half_even (of_int k) = k"
  by (simp add: round_half_even_def)

lemma round_half_even_minus: "round_half_even (- t) = - round_half_even t"
proof (cases "t = of_int \<lfloor>t\<rfloor>")
  case True
  then obtain k where "t = of_int k" ..
  then have "- t = of_int (- k)" by simp
  then show ?thesis using \<open>t = of_int k\<close> by (simp only: round_half_even_of_int)
next
  case False
  then have f: "\<lfloor>- t\<rfloor> = - \<lfloor>t\<rfloor> - 1"
    by (metis ceiling_altdef  ceiling_def add_diff_cancel_right' minus_diff_eq uminus_add_conv_diff)
  define n where "n = \<lfloor>t\<rfloor>"
  define d where "d = t - of_int n"
  have d: "0 < d" "d < 1" using False by (simp_all add: d_def n_def) linarith+
  have "- t - of_int (- n - 1) = 1 - d" by (simp add: d_def)
  then have "round_half_even (- t)
     = (if 1 - d < 1 / 2 then - n - 1 else if 1 / 2 < 1 - d then - n else if even (- n - 1) then - n - 1 else - n)"
    by (simp add: round_half_even_def f [folded n_def] Let_def)
  moreover have "round_half_even t
     = (if d < 1 / 2 then n else if 1 / 2 < d then n + 1 else if even n then n else n + 1)"
    by (simp add: round_half_even_def Let_def n_def d_def)
  ultimately show ?thesis using d by auto
qed


lemma float_round_minus: "float_round p emin (- x) = - float_round p emin x"
  by (simp add: float_round_def Let_def round_half_even_minus)

lemma round_half_even_le_int: "t \<le> of_int N \<Longrightarrow> round_half_even t \<le> N"
  using round_half_even_mono [of t "of_int N"] by simp

lemma round_half_even_ge_int: "of_int N \<le> t \<Longrightarrow> N \<le> round_half_even t"
  using round_half_even_mono [of "of_int N" t] by simp

text \<open>A power of two that is a multiple of the spacing is not crossed by rounding.\<close>

lemma pow2_multiple:
  assumes "k \<le> m"
  shows "pow2 m = of_int (2 ^ nat (m - k)) * pow2 k"
proof -
  have "m = int (nat (m - k)) + k" using assms by simp
  then have "pow2 m = pow2 (int (nat (m - k))) * pow2 k" by (metis pow2_add)
  then show ?thesis by (simp only: pow2_nat of_int_power of_int_numeral)
qed

lemma float_round_le_pow2:
  assumes "0 < x" and "x \<le> pow2 m" and "max (exponent_of x - int p + 1) emin \<le> m"
  shows "float_round p emin x \<le> pow2 m"
proof -
  let ?k = "max (exponent_of x - int p + 1) emin"
  let ?q = "pow2 ?k"
  let ?N = "2 ^ nat (m - ?k) :: int"
  have m: "pow2 m = of_int ?N * ?q" using assms(3) by (rule pow2_multiple)
  have "x / ?q \<le> of_int ?N" using assms(2) by (simp add: m pos_divide_le_eq)
  then have "round_half_even (x / ?q) \<le> ?N" by (rule round_half_even_le_int)
  then have "real_of_int (round_half_even (x / ?q)) \<le> of_int ?N" by (rule of_int_le_iff [THEN iffD2])
  then have "of_int (round_half_even (x / ?q)) * ?q \<le> of_int ?N * ?q"
    by (rule mult_right_mono) simp
  then show ?thesis using assms(1) by (simp add: float_round_def Let_def m)
qed

lemma float_round_ge_pow2:
  assumes "0 < x" and "pow2 m \<le> x" and "max (exponent_of x - int p + 1) emin \<le> m"
  shows "pow2 m \<le> float_round p emin x"
proof -
  let ?k = "max (exponent_of x - int p + 1) emin"
  let ?q = "pow2 ?k"
  let ?N = "2 ^ nat (m - ?k) :: int"
  have m: "pow2 m = of_int ?N * ?q" using assms(3) by (rule pow2_multiple)
  have "of_int ?N \<le> x / ?q" using assms(2) by (simp add: m pos_le_divide_eq)
  then have "?N \<le> round_half_even (x / ?q)" by (rule round_half_even_ge_int)
  then have "real_of_int ?N \<le> of_int (round_half_even (x / ?q))" by (rule of_int_le_iff [THEN iffD2])
  then have "of_int ?N * ?q \<le> of_int (round_half_even (x / ?q)) * ?q"
    by (rule mult_right_mono) simp
  then show ?thesis using assms(1) by (simp add: float_round_def Let_def m)
qed

lemma float_round_pos_mono:
  assumes "0 < x" and "x \<le> y" and "0 < p"
  shows "float_round p emin x \<le> float_round p emin y"
proof -
  have y: "0 < y" using assms by simp
  let ?kx = "max (exponent_of x - int p + 1) emin"
  let ?ky = "max (exponent_of y - int p + 1) emin"
  have e: "exponent_of x \<le> exponent_of y" using assms(1,2) by (rule exponent_of_mono)
  then have k: "?kx \<le> ?ky" by simp
  show ?thesis
  proof (cases "?kx = ?ky")
    case True
    let ?q = "pow2 ?ky"
    have "x / ?q \<le> y / ?q" using assms(2) by (simp add: divide_right_mono)
    then have "round_half_even (x / ?q) \<le> round_half_even (y / ?q)" by (rule round_half_even_mono)
    then have "real_of_int (round_half_even (x / ?q)) \<le> of_int (round_half_even (y / ?q))"
      by (rule of_int_le_iff [THEN iffD2])
    then have "of_int (round_half_even (x / ?q)) * ?q \<le> of_int (round_half_even (y / ?q)) * ?q"
      by (rule mult_right_mono) simp
    then show ?thesis using assms(1) y True by (simp add: float_round_def Let_def)
  next
    case False
    from k False have lt: "?kx < ?ky" by (rule le_neq_trans)
    then have ky: "?ky = exponent_of y - int p + 1" by linarith
    from lt have ex: "exponent_of x + 1 \<le> exponent_of y" by linarith
    let ?m = "exponent_of y"
    have "x < pow2 (exponent_of x + 1)" using exponent_of_bounds [OF assms(1)] by simp
    also have "\<dots> \<le> pow2 ?m" using ex by (rule pow2_mono)
    finally have xm: "x \<le> pow2 ?m" by simp
    have kxm: "?kx \<le> ?m" using lt ky assms(3) by linarith
    have kym: "?ky \<le> ?m" using ky assms(3) by linarith
    have "float_round p emin x \<le> pow2 ?m" using assms(1) xm kxm by (rule float_round_le_pow2)
    moreover have "pow2 ?m \<le> float_round p emin y"
      using y exponent_of_bounds [OF y] kym by (intro float_round_ge_pow2) simp_all
    ultimately show ?thesis by linarith
  qed
qed

lemma float_round_nonneg: "0 \<le> x \<Longrightarrow> 0 \<le> float_round p emin x"
proof (cases "x = 0")
  case True
  then show ?thesis by simp
next
  case False
  assume "0 \<le> x"
  let ?q = "pow2 (max (exponent_of \<bar>x\<bar> - int p + 1) emin)"
  have "0 \<le> x / ?q" using \<open>0 \<le> x\<close> by simp
  then have "(0::int) \<le> round_half_even (x / ?q)"
    using round_half_even_ge_int [of 0 "x / ?q"] by simp
  then have "0 \<le> real_of_int (round_half_even (x / ?q)) * ?q" by simp
  then show ?thesis using False by (simp add: float_round_def Let_def)
qed

lemma float_round_mono:
  assumes "x \<le> y" and "0 < p"
  shows "float_round p emin x \<le> float_round p emin y"
proof -
  consider "0 < x" | "x \<le> 0" "0 \<le> y" | "y < 0" by linarith
  then show ?thesis
  proof cases
    case 1
    then show ?thesis using assms by (rule float_round_pos_mono)
  next
    case 2
    have "0 \<le> float_round p emin (- x)" using 2(1) by (intro float_round_nonneg) simp
    then have "float_round p emin x \<le> 0" by (simp add: float_round_minus)
    moreover have "0 \<le> float_round p emin y" using 2(2) by (rule float_round_nonneg)
    ultimately show ?thesis by linarith
  next
    case 3
    then have "0 < - y" "- y \<le> - x" using assms(1) by simp_all
    from float_round_pos_mono [OF this assms(2)] show ?thesis by (simp add: float_round_minus)
  qed
qed

text \<open>Above the smallest normal number the relative error is at most \<open>2 ^ -p\<close>.\<close>

lemma float_round_rel_error:
  assumes "pow2 (emin + int p - 1) \<le> \<bar>x\<bar>"
  shows "\<bar>float_round p emin x - x\<bar> \<le> \<bar>x\<bar> / 2 ^ p"
proof -
  have pos: "0 < \<bar>x\<bar>" using assms pow2_pos [of "emin + int p - 1"] by linarith
  let ?e = "exponent_of \<bar>x\<bar>"
  have "emin + int p - 1 \<le> ?e"
  proof (rule ccontr)
    assume "\<not> emin + int p - 1 \<le> ?e"
    then have "?e + 1 \<le> emin + int p - 1" by simp
    then have "pow2 (?e + 1) \<le> pow2 (emin + int p - 1)" by (rule pow2_mono)
    moreover have "\<bar>x\<bar> < pow2 (?e + 1)" using exponent_of_bounds [OF pos] by simp
    ultimately show False using assms by linarith
  qed
  then have k: "max (?e - int p + 1) emin = ?e - int p + 1" by simp
  have "pow2 (?e - int p + 1) = pow2 ?e * pow2 (- int p) * pow2 1"
    by (metis pow2_add diff_conv_add_uminus)
  also have "\<dots> = pow2 ?e * (1 / 2 ^ p) * 2" by (simp add: pow2_neg_nat) (simp add: pow2_def)
  finally have q: "pow2 (?e - int p + 1) / 2 = pow2 ?e / 2 ^ p" by simp
  have "pow2 ?e \<le> \<bar>x\<bar>" using exponent_of_bounds [OF pos] by simp
  then have "pow2 ?e / 2 ^ p \<le> \<bar>x\<bar> / 2 ^ p" by (simp add: divide_right_mono)
  with float_round_error [of p emin x] q k show ?thesis by simp
qed

section \<open>The discretiser: auxiliary facts\<close>


lemma collect_map_Inr:
  "(\<And>x. x \<in> set xs \<Longrightarrow> f x = Inr (g x)) \<Longrightarrow> collect (map f xs) = Inr (map g xs)"
  by (induction xs) auto


lemma linspace_neg: "num < 0 \<Longrightarrow> linspace ar l h num = Inl ValueError"
  by (simp add: linspace_def)

lemma searchsorted_right_le: "searchsorted_right a v \<le> length a"
  by (simp add: searchsorted_right_def length_takeWhile_le)

lemma digitize_range:
  assumes "digitize x bins = Inr d"
  shows "0 \<le> d \<and> d \<le> int (length bins)"
  using assms searchsorted_right_le [of bins x] searchsorted_right_le [of "rev bins" x]
  by (auto simp: digitize_def Let_def split: if_splits)

lemma collect_map_Inr_id: "collect (map Inr vs) = Inr vs"
  by (induction vs) auto

lemma collect_Inr_D: "collect rs = Inr vs \<Longrightarrow> rs = map Inr vs"
  by (induction rs arbitrary: vs) (auto split: sum.splits)

lemma collect_Inl_ex: "collect rs = Inl e \<Longrightarrow> Inl e \<in> set rs"
  by (induction rs) (auto split: sum.splits)

text \<open>The weighted sum of the comprehension, started at any exponent.\<close>

lemma weighted_sum_shift:
  "sum_list (map (\<lambda>(i, d). d * b ^ i) (enumerate n ds))
     = (b::int) ^ n * sum_list (map (\<lambda>(i, d). d * b ^ i) (enumerate 0 ds))"
proof (induction ds arbitrary: n)
  case Nil
  show ?case by simp
next
  case (Cons d ds)
  have "sum_list (map (\<lambda>(i, d). d * b ^ i) (enumerate n (d # ds)))
          = d * b ^ n + b ^ Suc n * sum_list (map (\<lambda>(i, d). d * b ^ i) (enumerate 0 ds))"
    using Cons.IH [of "Suc n"] by simp
  moreover have "sum_list (map (\<lambda>(i, d). d * b ^ i) (enumerate 0 (d # ds)))
          = d + b * sum_list (map (\<lambda>(i, d). d * b ^ i) (enumerate 0 ds))"
    using Cons.IH [of "Suc 0"] by simp
  ultimately show ?case by (simp add: algebra_simps)
qed

lemma mixed_radix_Nil [simp]: "mixed_radix b [] = 0"
  by (simp add: mixed_radix_def)

lemma mixed_radix_Cons: "mixed_radix b (d # ds) = d + b * mixed_radix b ds"
  using weighted_sum_shift [of b "Suc 0" ds] by (simp add: mixed_radix_def)

lemma mixed_radix_sum: "mixed_radix b ds = (\<Sum>i<length ds. ds ! i * b ^ i)"
proof (induction ds)
  case Nil
  show ?case by simp
next
  case (Cons d ds)
  have "(\<Sum>i<length (d # ds). (d # ds) ! i * b ^ i) = d + (\<Sum>i<length ds. ds ! i * b ^ Suc i)"
    by (simp add: sum.lessThan_Suc_shift del: sum.lessThan_Suc)
  also have "\<dots> = d + b * (\<Sum>i<length ds. ds ! i * b ^ i)"
    by (simp add: sum_distrib_left algebra_simps)
  finally show ?case using Cons.IH by (simp add: mixed_radix_Cons)
qed

lemma mixed_radix_range:
  assumes "\<forall>d\<in>set ds. 0 \<le> d \<and> d < b"
  shows "0 \<le> mixed_radix b ds \<and> mixed_radix b ds < b ^ length ds"
  using assms
proof (induction ds)
  case Nil
  show ?case by simp
next
  case (Cons d ds)
  let ?r = "mixed_radix b ds"
  from Cons have d: "0 \<le> d" "d \<le> b - 1" and r: "0 \<le> ?r" "?r \<le> b ^ length ds - 1" by auto
  have b: "1 \<le> b" using d by linarith
  have "b * ?r \<le> b * (b ^ length ds - 1)" using r b by (intro mult_left_mono) auto
  then have "d + b * ?r \<le> b ^ Suc (length ds) - 1" using d by (simp add: algebra_simps)
  moreover have "0 \<le> d + b * ?r" using d r b by simp
  ultimately show ?case by (simp add: mixed_radix_Cons)
qed

lemma decode_mixed_radix:
  assumes "\<forall>d\<in>set ds. 0 \<le> d \<and> d < b"
  shows "decode_digits b (length ds) (mixed_radix b ds) = ds"
  using assms
proof (induction ds)
  case Nil
  show ?case by simp
next
  case (Cons d ds)
  let ?r = "mixed_radix b ds"
  from Cons have d: "0 \<le> d" "d < b" by auto
  then have "(d + b * ?r) mod b = d" "(d + b * ?r) div b = ?r" by simp_all
  with Cons show ?case by (simp add: mixed_radix_Cons)
qed

lemma mixed_radix_digit:
  assumes "\<forall>d\<in>set ds. 0 \<le> d \<and> d < b" and "i < length ds"
  shows "mixed_radix b ds div b ^ i mod b = ds ! i"
  using assms
proof (induction ds arbitrary: i)
  case Nil
  then show ?case by simp
next
  case (Cons d ds)
  let ?r = "mixed_radix b ds"
  from Cons.prems have d: "0 \<le> d" "d < b" by auto
  show ?case
  proof (cases i)
    case 0
    with d show ?thesis by (simp add: mixed_radix_Cons)
  next
    case (Suc j)
    have "(d + b * ?r) div b ^ Suc j = (d + b * ?r) div b div b ^ j"
      using d zdiv_zmult2_eq [of "b ^ j" "d + b * ?r" b] by simp
    also have "(d + b * ?r) div b = ?r" using d by simp
    finally show ?thesis using Cons Suc by (simp add: mixed_radix_Cons)
  qed
qed

text \<open>Arithmetic that stays within \<^verbatim>\<open>int64\<close> is the arithmetic of the integers.\<close>

lemma wrap64_id: "fits_int64 x \<Longrightarrow> wrap64 x = x"
  by (simp add: fits_int64_def wrap64_def)

lemma fits_int64_0 [simp]: "fits_int64 0"
  by (simp add: fits_int64_def)

lemma foldl_scalar_add_int64:
  assumes "\<forall>k\<le>length vs. fits_int64 (sum_list (take k vs))"
  shows "foldl (scalar_add ar) (PyInteger 0) (map NpInt64 vs)
           = (if vs = [] then PyInteger 0 else NpInt64 (sum_list vs))"
  using assms
proof (induction vs rule: rev_induct)
  case Nil
  show ?case by simp
next
  case (snoc v vs)
  have pre: "\<forall>k\<le>length vs. fits_int64 (sum_list (take k vs))"
  proof (intro allI impI)
    fix k assume k: "k \<le> length vs"
    then have "k \<le> length (vs @ [v])" by simp
    with snoc.prems have "fits_int64 (sum_list (take k (vs @ [v])))" by blast
    with k show "fits_int64 (sum_list (take k vs))" by simp
  qed
  note IH = snoc.IH [OF pre]
  from snoc.prems have all: "fits_int64 (sum_list (take (Suc (length vs)) (vs @ [v])))"
    by (metis length_append_singleton order_refl)
  then have tot: "fits_int64 (sum_list vs + v)" by simp
  show ?case
  proof (cases "vs = []")
    case True
    with tot show ?thesis by (simp add: int64_plus_def wrap64_id)
  next
    case False
    with IH tot show ?thesis by (simp add: wrap64_id)
  qed
qed

lemma take_enumerate: "take k (enumerate n xs) = enumerate n (take k xs)"
  by (induction xs arbitrary: k n) (simp_all add: take_Cons split: nat.splits)

lemma convert_to_one_number_int64:
  assumes digits: "\<forall>d\<in>set ds. 0 \<le> d \<and> d < n_bins w + 2"
    and size: "(n_bins w + 2) ^ length ds \<le> 2 ^ 63"
  shows "convert_to_one_number ar w ds
           = (if ds = [] then PyInteger 0 else NpInt64 (mixed_radix (n_bins w + 2) ds))"
proof -
  let ?b = "n_bins w + 2"
  let ?g = "\<lambda>(i, d). d * ?b ^ i"
  let ?vs = "map ?g (enumerate 0 ds)"
  have pw: "?b ^ i \<le> ?b ^ length ds" if "i \<le> length ds" "1 \<le> ?b" for i
    using that by (intro power_increasing) simp_all
  have prod: "int64_times ar d (?b ^ i) = NpInt64 (d * ?b ^ i)"
    if mem: "(i, d) \<in> set (enumerate 0 ds)" for i d
  proof -
    from mem have i: "i < length ds" and d: "d \<in> set ds"
      by (auto simp: in_set_enumerate_eq)
    from d digits have dr: "0 \<le> d" "d < ?b" by auto
    then have b1: "1 \<le> ?b" by linarith
    have p0: "0 < ?b ^ i" using b1 by simp
    have "?b * ?b ^ i = ?b ^ Suc i" by simp
    also have "\<dots> \<le> ?b ^ length ds" using i b1 by (intro pw) simp_all
    finally have bb: "?b * ?b ^ i \<le> 2 ^ 63" using size by linarith
    have "(d + 1) * ?b ^ i \<le> ?b * ?b ^ i" using dr p0 by (intro mult_right_mono) simp_all
    with bb have dp: "d * ?b ^ i + ?b ^ i \<le> 2 ^ 63" by (simp add: algebra_simps)
    have dn: "0 \<le> d * ?b ^ i" using dr p0 by simp
    have pi: "?b ^ i < 2 ^ 63"
    proof (cases "?b = 1")
      case True
      then have "?b ^ i = 1" by (simp only: power_one)
      then show ?thesis by (simp only:) simp
    next
      case False
      with b1 have "2 \<le> ?b" by simp
      then have "2 * ?b ^ i \<le> ?b * ?b ^ i" using p0 by (intro mult_right_mono) simp_all
      with bb p0 show ?thesis by linarith
    qed
    from dp dn p0 pi have f1: "fits_int64 (?b ^ i)" and f2: "fits_int64 (d * ?b ^ i)"
      by (simp_all add: fits_int64_def)
    then show ?thesis by (simp add: int64_times_def wrap64_id)
  qed
  have prods: "map (\<lambda>(i, d). int64_times ar d (?b ^ i)) (enumerate 0 ds) = map NpInt64 ?vs"
    using prod by (auto simp: map_eq_conv)
  have fits: "fits_int64 (sum_list (take k ?vs))" if "k \<le> length ?vs" for k
  proof -
    have "sum_list (take k ?vs) = mixed_radix ?b (take k ds)"
      by (simp add: take_map take_enumerate mixed_radix_def)
    moreover have "\<forall>d\<in>set (take k ds). 0 \<le> d \<and> d < ?b"
      using digits by (auto dest: in_set_takeD)
    from mixed_radix_range [OF this]
    have r: "0 \<le> mixed_radix ?b (take k ds)" "mixed_radix ?b (take k ds) < ?b ^ length (take k ds)"
      by simp_all
    moreover have "?b ^ length (take k ds) \<le> 2 ^ 63"
    proof (cases "ds = []")
      case True
      then show ?thesis by simp
    next
      case False
      then obtain d where "d \<in> set ds" by (cases ds) auto
      with digits have "1 \<le> ?b" by fastforce
      then have "?b ^ length (take k ds) \<le> ?b ^ length ds" by (intro power_increasing) simp_all
      with size show ?thesis by linarith
    qed
    ultimately show ?thesis by (simp add: fits_int64_def)
  qed
  then have "\<forall>k\<le>length ?vs. fits_int64 (sum_list (take k ?vs))" by blast
  from foldl_scalar_add_int64 [OF this, of ar]
  have "foldl (scalar_add ar) (PyInteger 0) (map NpInt64 ?vs)
          = (if ?vs = [] then PyInteger 0 else NpInt64 (sum_list ?vs))" .
  moreover have "?vs = [] \<longleftrightarrow> ds = []" by (cases ds) simp_all
  ultimately show ?thesis by (simp only: convert_to_one_number_def prods mixed_radix_def)
qed


lemma searchsorted_right_first_greater:
  "(\<forall>j<searchsorted_right a v. a ! j \<le> v)
     \<and> (searchsorted_right a v < length a \<longrightarrow> v < a ! searchsorted_right a v)"
proof -
  have "a ! j \<le> v" if "j < length (takeWhile (\<lambda>b. b \<le> v) a)" for j
    using that nth_mem [OF that] by (auto simp: takeWhile_nth dest: set_takeWhileD)
  moreover have "v < a ! length (takeWhile (\<lambda>b. b \<le> v) a)"
    if "length (takeWhile (\<lambda>b. b \<le> v) a) < length a"
    using nth_length_takeWhile [OF that] by simp
  ultimately show ?thesis by (simp add: searchsorted_right_def)
qed

lemma searchsorted_right_all: "\<forall>b\<in>set a. b \<le> v \<Longrightarrow> searchsorted_right a v = length a"
proof -
  assume "\<forall>b\<in>set a. b \<le> v"
  then have "takeWhile (\<lambda>b. b \<le> v) a = a" by (simp add: takeWhile_eq_all_conv)
  then show ?thesis unfolding searchsorted_right_def by (simp only:)
qed

lemma searchsorted_right_none: "a \<noteq> [] \<Longrightarrow> v < hd a \<Longrightarrow> searchsorted_right a v = 0"
  by (cases a) (simp_all add: searchsorted_right_def)

lemma digitize_ascending:
  assumes "sorted bins"
  shows "digitize x bins = Inr (int (searchsorted_right bins x))"
  using assms by (simp add: digitize_def monotonicity_def)

lemma digitize_first_edge_greater:
  assumes "sorted bins"
  shows "\<exists>d. digitize x bins = Inr d \<and> first_edge_greater bins x d"
  using digitize_ascending [OF assms, of x] searchsorted_right_first_greater [of bins x]
    searchsorted_right_le [of bins x]
  by (simp add: first_edge_greater_def)

lemma integer_value_convert:
  assumes "\<forall>d\<in>set ds. 0 \<le> d \<and> d \<le> n_bins w + 1"
    and "(n_bins w + 2) ^ length ds \<le> 2 ^ 63"
  shows "integer_value (convert_to_one_number ar w ds) = Some (mixed_radix (n_bins w + 2) ds)"
proof -
  from assms(1) have "\<forall>d\<in>set ds. 0 \<le> d \<and> d < n_bins w + 2" by fastforce
  from convert_to_one_number_int64 [OF this assms(2)] show ?thesis by simp
qed

lemma int64_times_fits:
  "fits_int64 p \<Longrightarrow> fits_int64 (d * p) \<Longrightarrow> int64_times ar d p = NpInt64 (d * p)"
  by (simp add: int64_times_def wrap64_id)

section \<open>The bin edges under rounding\<close>

lemma rounding_laws_exact: "rounding_laws exact_arith"
  by (simp add: rounding_laws_def)

lemma rounding_laws_ieee: "rounding_laws ieee_arith"
proof -
  have "\<bar>float_round 53 (- 1074) x - x\<bar> \<le> \<bar>x\<bar> / 2 ^ 53" if "1 / 2 ^ 1022 \<le> \<bar>x\<bar>" for x
  proof (rule float_round_rel_error)
    have "- 1074 + int 53 - 1 = - int 1022" by simp
    then have "pow2 (- 1074 + int 53 - 1) = 1 / 2 ^ 1022" by (simp only: pow2_neg_nat)
    with that show "pow2 (- 1074 + int 53 - 1) \<le> \<bar>x\<bar>" by (simp only:)
  qed
  moreover have "float_round 53 (- 1074) x \<le> float_round 53 (- 1074) y" if "x \<le> y" for x y
    using that by (rule float_round_mono) simp
  ultimately show ?thesis
    unfolding rounding_laws_def ieee_arith_simps by (intro conjI allI impI float_round_minus)
qed

lemma linspace_samples:
  "0 \<le> num \<Longrightarrow>
   linspace ar l h num
     = Inr (if 1 < nat num then butlast (map (linspace_sample ar l h (nat num)) [0..<nat num]) @ [h]
            else map (linspace_sample ar l h (nat num)) [0..<nat num])"
  by (simp add: linspace_def linspace_sample_def [abs_def] Let_def comp_def)


lemma rounding_mono: "rounding_laws ar \<Longrightarrow> x \<le> y \<Longrightarrow> f64 ar x \<le> f64 ar y"
  by (simp add: rounding_laws_def)

lemma rounding_odd: "rounding_laws ar \<Longrightarrow> f64 ar (- x) = - f64 ar x"
  by (simp add: rounding_laws_def)

lemma rounding_zero: "rounding_laws ar \<Longrightarrow> f64 ar 0 = 0"
  using rounding_odd [of ar 0] by simp

lemma rounding_nonneg: "rounding_laws ar \<Longrightarrow> 0 \<le> x \<Longrightarrow> 0 \<le> f64 ar x"
  using rounding_mono [of ar 0 x] by (simp add: rounding_zero)

lemma rounding_error:
  "rounding_laws ar \<Longrightarrow> 1 / 2 ^ 1022 \<le> \<bar>x\<bar> \<Longrightarrow> \<bar>f64 ar x - x\<bar> \<le> \<bar>x\<bar> / 2 ^ 53"
  by (simp add: rounding_laws_def)

lemma rounding_upper:
  assumes "rounding_laws ar" and "x = 0 \<or> 1 / 2 ^ 1022 \<le> x"
  shows "f64 ar x \<le> x * (1 + 1 / 2 ^ 53)"
proof (cases "x = 0")
  case True
  then show ?thesis by (simp add: rounding_zero [OF assms(1)])
next
  case False
  with assms(2) have x: "1 / 2 ^ 1022 \<le> x" by simp
  then have pos: "0 \<le> x" by (rule order_trans [rotated]) simp
  have "f64 ar x - x \<le> \<bar>f64 ar x - x\<bar>" by (rule abs_ge_self)
  also have "\<dots> \<le> \<bar>x\<bar> / 2 ^ 53" using assms(1) by (rule rounding_error) (use x pos in simp)
  also have "\<bar>x\<bar> = x" using pos by simp
  finally have "f64 ar x \<le> x + x / 2 ^ 53" by linarith
  moreover have "x * (1 + 1 / 2 ^ 53) = x + x / 2 ^ 53" by (simp add: algebra_simps)
  ultimately show ?thesis by (simp only:)
qed

lemma rounding_lower:
  assumes "rounding_laws ar" and "1 / 2 ^ 1022 \<le> x"
  shows "x * (1 - 1 / 2 ^ 53) \<le> f64 ar x"
proof -
  from assms(2) have pos: "0 \<le> x" by (rule order_trans [rotated]) simp
  have "x - f64 ar x \<le> \<bar>f64 ar x - x\<bar>" by linarith
  also have "\<dots> \<le> \<bar>x\<bar> / 2 ^ 53" using assms(1) by (rule rounding_error) (use assms(2) pos in simp)
  also have "\<bar>x\<bar> = x" using pos by simp
  finally have "x - x / 2 ^ 53 \<le> f64 ar x" by linarith
  moreover have "x * (1 - 1 / 2 ^ 53) = x - x / 2 ^ 53" by (simp add: algebra_simps)
  ultimately show ?thesis by (simp only:)
qed

text \<open>The samples of an ascending \<open>linspace\<close> with at least two points.\<close>

lemma linspace_sample_unfold:
  assumes "1 < n"
  shows "linspace_sample ar l h n i
           = f64 ar ((if f64 ar (f64 ar (h - l) / real (n - 1)) = 0
                       then f64 ar (f64 ar (real i / real (n - 1)) * f64 ar (h - l))
                       else f64 ar (real i * f64 ar (f64 ar (h - l) / real (n - 1)))) + l)"
  using assms by (simp add: linspace_sample_def Let_def)

lemma linspace_sample_asc:
  assumes laws: "rounding_laws ar" and lh: "l \<le> h" and n: "1 < n"
    and wide: "l = h \<or> real (n - 1) / 2 ^ 1021 \<le> h - l"
  obtains raw where "\<And>i. linspace_sample ar l h n i = f64 ar (raw i + l)"
    and "raw 0 = 0"
    and "\<And>i j. i \<le> j \<Longrightarrow> raw i \<le> raw j"
    and "real n - 2 \<le> 2 ^ 51 \<Longrightarrow> raw (n - 2) \<le> h - l"
proof -
  let ?D = "h - l"
  let ?delta = "f64 ar ?D"
  let ?step = "f64 ar (?delta / real (n - 1))"
  have D: "0 \<le> ?D" using lh by simp
  have delta: "0 \<le> ?delta" using laws D by (rule rounding_nonneg)
  have step: "0 \<le> ?step" using laws by (rule rounding_nonneg) (use delta in simp)
  show ?thesis
  proof (cases "l = h")
    case True
    then have "?delta = 0" by (simp add: rounding_zero [OF laws])
    then have s: "linspace_sample ar l h n i = f64 ar ((\<lambda>i. 0) i + l)" for i
      using n by (simp add: linspace_sample_unfold rounding_zero [OF laws])
    show ?thesis by (rule that [of "\<lambda>i. 0"]) (use s D in simp_all)
  next
    case False
    define u :: real where "u = 1 / 2 ^ 53"
    define T :: real where "T = 1 / 2 ^ 1022"
    define m where "m = real (n - 1)"
    have m: "1 \<le> m" using n by (simp add: m_def)
    have T: "0 < T" by (simp add: T_def)
    have u: "0 < u" "u \<le> 1 / 4" by (simp_all add: u_def)
    from False wide have w0: "m / 2 ^ 1021 \<le> ?D" by (simp add: m_def)
    have e: "m / 2 ^ 1021 = m * (2 * T)" by (simp add: T_def)
    have wD: "m * (2 * T) \<le> ?D" using w0 by (simp only: e)
    have "1 * (2 * T) \<le> m * (2 * T)" using m T by (intro mult_right_mono) simp_all
    with wD T have DT: "T \<le> ?D" by linarith
    have d0: "?D * (1 - u) \<le> ?delta"
      unfolding u_def using laws by (rule rounding_lower) (use DT in \<open>simp add: T_def\<close>)
    have "(m * (2 * T)) * (1 - u) \<le> ?D * (1 - u)" using wD u by (intro mult_right_mono) simp_all
    with d0 have "m * (2 * T * (1 - u)) \<le> ?delta" by (simp add: mult.assoc)
    then have y0: "2 * T * (1 - u) \<le> ?delta / m" using m by (simp add: pos_le_divide_eq mult.commute)
    have "2 * T * (3 / 4) \<le> 2 * T * (1 - u)" using T u by (intro mult_left_mono) simp_all
    with y0 T have yT: "T \<le> ?delta / m" by linarith
    have s0: "(?delta / m) * (1 - u) \<le> ?step"
      unfolding u_def m_def using laws by (rule rounding_lower) (use yT in \<open>simp add: T_def m_def\<close>)
    have "(2 * T * (1 - u)) * (1 - u) \<le> (?delta / m) * (1 - u)"
      using y0 u by (intro mult_right_mono) simp_all
    moreover have "2 * T * (3 / 4) * (3 / 4) \<le> (2 * T * (1 - u)) * (1 - u)"
      using T u by (intro mult_mono) simp_all
    ultimately have sT: "T \<le> ?step" using s0 T by linarith
    then have nz: "?step \<noteq> 0" using T by linarith
    let ?raw = "\<lambda>i. f64 ar (real i * ?step)"
    have 1: "linspace_sample ar l h n i = f64 ar (?raw i + l)" for i
      using n nz by (simp add: linspace_sample_unfold)
    have 2: "?raw 0 = 0" by (simp add: rounding_zero [OF laws])
    have 3: "?raw i \<le> ?raw j" if "i \<le> j" for i j
      using laws by (rule rounding_mono) (use that step in \<open>simp add: mult_right_mono\<close>)
    have 4: "?raw (n - 2) \<le> ?D" if big: "real n - 2 \<le> 2 ^ 51"
    proof -
      define k where "k = real (n - 2)"
      have k: "0 \<le> k" "k \<le> 2 ^ 51" "m = k + 1" using n big by (simp_all add: k_def m_def)
      have d1: "?delta \<le> ?D * (1 + u)"
        unfolding u_def using laws by (rule rounding_upper) (use DT in \<open>simp add: T_def\<close>)
      have "?step \<le> (?delta / m) * (1 + u)"
        unfolding u_def m_def using laws by (rule rounding_upper) (use yT in \<open>simp add: T_def m_def\<close>)
      also have "\<dots> \<le> (?D * (1 + u) / m) * (1 + u)"
        using d1 m by (intro mult_right_mono divide_right_mono) (simp_all add: u_def)
      finally have s1: "?step \<le> ?D * (1 + u) ^ 2 / (k + 1)"
        by (simp add: power2_eq_square mult.assoc k(3))
      have ks: "k * ?step = 0 \<or> 1 / 2 ^ 1022 \<le> k * ?step"
      proof (cases "k = 0")
        case True
        then show ?thesis by simp
      next
        case False
        then have "n - 2 \<noteq> 0" by (simp add: k_def)
        then have "1 \<le> k" by (simp add: k_def)
        then have "1 * ?step \<le> k * ?step" using step by (intro mult_right_mono) simp_all
        with sT have "T \<le> k * ?step" by linarith
        then show ?thesis unfolding T_def by (rule disjI2)
      qed
      have "?raw (n - 2) \<le> (k * ?step) * (1 + u)"
        unfolding u_def k_def using laws by (rule rounding_upper) (use ks in \<open>simp add: k_def\<close>)
      also have "\<dots> \<le> (k * (?D * (1 + u) ^ 2 / (k + 1))) * (1 + u)"
        using s1 k(1) by (intro mult_right_mono mult_left_mono) (simp_all add: u_def)
      also have "\<dots> = ?D * (k * (1 + u) ^ 3 / (k + 1))"
        by (simp add: power3_eq_cube power2_eq_square)
      also have "\<dots> \<le> ?D * 1"
      proof (rule mult_left_mono [OF _ D])
        have "(1 + u) ^ 3 \<le> 1 + 4 * u" by (simp add: u_def power3_eq_cube)
        then have "k * (1 + u) ^ 3 \<le> k * (1 + 4 * u)" using k(1) by (rule mult_left_mono)
        also have "\<dots> = k + k * (4 * u)" by (simp add: algebra_simps)
        also have "k * (4 * u) \<le> 2 ^ 51 * (4 * u)"
          using k(2) by (rule mult_right_mono) (simp add: u_def)
        also have "2 ^ 51 * (4 * u) = 1" by (simp add: u_def)
        finally have "k * (1 + u) ^ 3 \<le> k + 1" by simp
        then show "k * (1 + u) ^ 3 / (k + 1) \<le> 1" using k(1) by (simp add: divide_le_eq)
      qed
      finally show ?thesis by simp
    qed
    from 1 2 3 4 show ?thesis by (rule that)
  qed
qed

lemma butlast_upt_0: "butlast [0..<n] = [0..<n - 1]"
  by (cases n) simp_all

lemma linspace_sample_single:
  assumes "rounding_laws ar" and "f64 ar l = l"
  shows "linspace_sample ar l h (Suc 0) 0 = l"
  using assms by (simp add: linspace_sample_def Let_def rounding_zero)

lemma linspace_ascending:
  assumes laws: "rounding_laws ar" and lh: "l \<le> h"
    and rl: "f64 ar l = l" and rh: "f64 ar h = h"
    and num: "0 \<le> num" "num \<le> 2 ^ 51"
    and wide: "l = h \<or> real_of_int (num - 1) / 2 ^ 1021 \<le> h - l"
  shows "\<exists>ys. linspace ar l h num = Inr ys \<and> length ys = nat num \<and> sorted ys
           \<and> (\<forall>b\<in>set ys. l \<le> b \<and> b \<le> h)
           \<and> (0 < nat num \<longrightarrow> hd ys = l) \<and> (1 < nat num \<longrightarrow> last ys = h)"
proof -
  let ?n = "nat num"
  let ?s = "linspace_sample ar l h ?n"
  consider "?n = 0" | "?n = 1" | "1 < ?n" by linarith
  then show ?thesis
  proof cases
    case 1
    then show ?thesis using num by (simp add: linspace_samples)
  next
    case 2
    then have "linspace ar l h num = Inr [l]"
      using num laws rl by (simp add: linspace_samples linspace_sample_single)
    then show ?thesis using 2 lh by simp
  next
    case 3
    have big: "real ?n - 2 \<le> 2 ^ 51"
    proof -
      have "real ?n \<le> 2 ^ 51" using num
        by (simp add: nat_le_iff of_nat_le_iff [symmetric] del: of_nat_le_iff)
      then show ?thesis by simp
    qed
    have "real (?n - 1) = real_of_int (num - 1)" using 3 by simp
    with wide have wide': "l = h \<or> real (?n - 1) / 2 ^ 1021 \<le> h - l" by (simp only:)
    from laws lh 3 wide' obtain raw where s: "\<And>i. ?s i = f64 ar (raw i + l)"
      and r0: "raw 0 = 0" and rm: "\<And>i j. i \<le> j \<Longrightarrow> raw i \<le> raw j"
      and rt: "real ?n - 2 \<le> 2 ^ 51 \<Longrightarrow> raw (?n - 2) \<le> h - l"
      by (rule linspace_sample_asc) blast
    have s0: "?s 0 = l" by (simp add: s r0 rl)
    have sm: "?s i \<le> ?s j" if "i \<le> j" for i j
      unfolding s using laws by (rule rounding_mono) (use rm [OF that] in simp)
    have "?s (?n - 2) \<le> f64 ar h"
      unfolding s using laws by (rule rounding_mono) (use rt [OF big] in simp)
    then have st: "?s (?n - 2) \<le> h" by (simp add: rh)
    let ?ys = "map ?s [0..<?n - 1] @ [h]"
    have eq: "linspace ar l h num = Inr ?ys"
      using num 3 by (simp add: linspace_samples map_butlast [symmetric] butlast_upt_0)
    have bnd: "l \<le> ?s i \<and> ?s i \<le> h" if "i < ?n - 1" for i
    proof -
      have "?s 0 \<le> ?s i" by (rule sm) simp
      moreover have "?s i \<le> ?s (?n - 2)" by (rule sm) (use that in simp)
      ultimately show ?thesis using s0 st by simp
    qed
    have srt: "sorted (map ?s [0..<?n - 1])"
      by (simp add: sorted_map sorted_wrt_iff_nth_less sm)
    have "sorted ?ys" using srt bnd by (auto simp: sorted_append)
    moreover have "\<forall>b\<in>set ?ys. l \<le> b \<and> b \<le> h" using bnd lh by auto
    moreover have "hd ?ys = l" using 3 s0 by (simp add: hd_append hd_map upt_conv_Cons)
    moreover have "length ?ys = ?n" using 3 by simp
    ultimately show ?thesis using eq by simp
  qed
qed


lemma linspace_sample_neg:
  assumes laws: "rounding_laws ar"
  shows "linspace_sample ar (- l) (- h) n i = - linspace_sample ar l h n i"
proof -
  note odd = rounding_odd [OF laws]
  let ?d = "real (n - 1)"
  have delta: "f64 ar (- h - - l) = - f64 ar (h - l)"
    using odd [of "h - l"] by simp
  have step: "f64 ar (- f64 ar (h - l) / ?d) = - f64 ar (f64 ar (h - l) / ?d)"
    using odd [of "f64 ar (h - l) / ?d"] by simp
  have r1: "f64 ar (f64 ar (real i / ?d) * - f64 ar (h - l))
              = - f64 ar (f64 ar (real i / ?d) * f64 ar (h - l))"
    using odd [of "f64 ar (real i / ?d) * f64 ar (h - l)"] by simp
  have r2: "f64 ar (real i * - x) = - f64 ar (real i * x)" for x
    using odd [of "real i * x"] by simp
  have fin: "f64 ar (- x + - l) = - f64 ar (x + l)" for x
    using odd [of "x + l"] by simp
  show ?thesis
    unfolding linspace_sample_def Let_def delta step
    by (simp only: r1 r2 fin neg_equal_0_iff_equal if_distrib [of uminus, symmetric]
        if_distrib [of "\<lambda>x. f64 ar (x + - l)"] split: if_splits)
qed


lemma linspace_neg_eq:
  assumes "rounding_laws ar" and "0 \<le> num" and "linspace ar (- l) (- h) num = Inr zs"
  shows "linspace ar l h num = Inr (map uminus zs)"
proof -
  let ?n = "nat num"
  have m: "map (linspace_sample ar l h ?n) xs = map uminus (map (linspace_sample ar (- l) (- h) ?n) xs)"
    for xs by (simp add: linspace_sample_neg [OF assms(1)] comp_def)
  from assms(3) have zs: "zs = (if 1 < ?n
      then butlast (map (linspace_sample ar (- l) (- h) ?n) [0..<?n]) @ [- h]
      else map (linspace_sample ar (- l) (- h) ?n) [0..<?n])"
    by (simp add: linspace_samples [OF assms(2)])
  show ?thesis
    by (simp add: linspace_samples [OF assms(2)] zs m map_butlast [symmetric] del: map_map)
qed

lemma sorted_map_uminus:
  fixes zs :: "real list"
  shows "sorted (rev (map uminus zs)) \<longleftrightarrow> sorted zs"
  by (simp add: sorted_wrt_rev sorted_map rev_map flip: sorted_wrt_map)


lemma linspace_edge_list:
  assumes laws: "rounding_laws ar"
    and rl: "f64 ar l = l" and rh: "f64 ar h = h"
    and num: "0 \<le> num" "num \<le> 2 ^ 51"
    and wide: "l = h \<or> real_of_int (num - 1) / 2 ^ 1021 \<le> \<bar>h - l\<bar>"
  shows "\<exists>ys. linspace ar l h num = Inr ys \<and> edge_list l h (nat num) ys"
proof (cases "l \<le> h")
  case True
  from wide True have "l = h \<or> real_of_int (num - 1) / 2 ^ 1021 \<le> h - l" by simp
  from linspace_ascending [OF laws True rl rh num this] obtain ys where
    ys: "linspace ar l h num = Inr ys" "length ys = nat num" "sorted ys"
      "\<forall>b\<in>set ys. l \<le> b \<and> b \<le> h" "0 < nat num \<longrightarrow> hd ys = l" "1 < nat num \<longrightarrow> last ys = h"
    by (elim exE conjE) (rule that)
  have "sorted (rev ys)" if "h \<le> l"
  proof -
    from that True have "h = l" by simp
    with ys(4) have "\<forall>b\<in>set ys. b = l" by auto
    then have c: "\<forall>b\<in>set (rev ys). b = l" by simp
    have "rev ys ! i \<le> rev ys ! j" if "i < j" "j < length (rev ys)" for i j
    proof -
      from that have "rev ys ! i \<in> set (rev ys)" "rev ys ! j \<in> set (rev ys)"
        by (simp_all del: set_rev)
      with c show ?thesis by (metis order_refl)
    qed
    then show ?thesis unfolding sorted_wrt_iff_nth_less by blast
  qed
  with ys show ?thesis by (auto simp: edge_list_def)
next
  case False
  then have hl: "- l \<le> - h" "h \<le> l" "\<not> l \<le> h" by simp_all
  have rl': "f64 ar (- l) = - l" and rh': "f64 ar (- h) = - h"
    by (simp_all add: rounding_odd [OF laws] rl rh)
  from wide False have "- l = - h \<or> real_of_int (num - 1) / 2 ^ 1021 \<le> - h - - l" by simp
  from linspace_ascending [OF laws hl(1) rl' rh' num this] obtain zs where
    zs: "linspace ar (- l) (- h) num = Inr zs" "length zs = nat num" "sorted zs"
      "0 < nat num \<longrightarrow> hd zs = - l" "1 < nat num \<longrightarrow> last zs = - h"
    by (elim exE conjE) (rule that)
  let ?ys = "map uminus zs"
  have eq: "linspace ar l h num = Inr ?ys" using laws num(1) zs(1) by (rule linspace_neg_eq)
  have "sorted (rev ?ys)" using zs(3) by (simp only: sorted_map_uminus)
  moreover have "hd ?ys = l" if "0 < nat num"
    using that zs(2,4) by (cases zs) simp_all
  moreover have "last ?ys = h" if "1 < nat num"
  proof -
    from that zs(2) have ne: "zs \<noteq> []" by auto
    then show ?thesis using that zs(5) by (simp add: last_map)
  qed
  ultimately show ?thesis using eq zs(2) hl by (auto simp: edge_list_def)
qed

lemma edge_list_digitize:
  assumes "edge_list l h n ys"
  shows "\<exists>d. digitize x ys = Inr d"
proof (cases "l \<le> h")
  case True
  with assms have "sorted ys" by (simp add: edge_list_def)
  then show ?thesis by (simp add: digitize_def monotonicity_def)
next
  case False
  with assms have "sorted (rev ys)" by (simp add: edge_list_def)
  then show ?thesis by (simp add: digitize_def monotonicity_def Let_def)
qed

text \<open>
  Rounded differences and sums with \<open>100\<close>: below a bound of moderate size, and not below
  a bound that is a double.
\<close>

lemma rounding_below:
  assumes laws: "rounding_laws ar" and l: "\<bar>l\<bar> \<le> 2 ^ 58"
  shows "f64 ar (l - 100) < l"
proof (cases "1 / 2 ^ 1022 \<le> \<bar>l - 100\<bar>")
  case True
  have "f64 ar (l - 100) - (l - 100) \<le> \<bar>f64 ar (l - 100) - (l - 100)\<bar>" by (rule abs_ge_self)
  also have "\<dots> \<le> \<bar>l - 100\<bar> / 2 ^ 53" using laws True by (rule rounding_error)
  also have "\<dots> \<le> (2 ^ 58 + 100) / 2 ^ 53"
  proof (rule divide_right_mono)
    have "\<bar>l - 100\<bar> \<le> \<bar>l\<bar> + 100" by simp
    with l show "\<bar>l - 100\<bar> \<le> 2 ^ 58 + 100" by linarith
  qed simp
  also have "\<dots> < 33" by simp
  finally show ?thesis by simp
next
  case False
  define T :: real where "T = 1 / 2 ^ 1022"
  have T: "0 < T" "T * (1 + 1 / 2 ^ 53) < 1" by (simp_all add: T_def)
  from False have x: "\<bar>l - 100\<bar> < T" by (simp add: T_def)
  then have "l - 100 \<le> T" by linarith
  then have "f64 ar (l - 100) \<le> f64 ar T" using laws by (intro rounding_mono)
  also have "\<dots> \<le> T * (1 + 1 / 2 ^ 53)"
    using laws by (rule rounding_upper) (simp add: T_def)
  also have "\<dots> < 1" by (rule T(2))
  finally have "f64 ar (l - 100) < 1" .
  moreover from x T(2) T(1) have "1 < l"
  proof -
    have "T < 1" using T by (simp add: T_def)
    with x show ?thesis by linarith
  qed
  ultimately show ?thesis by linarith
qed

lemma rounding_above:
  assumes "rounding_laws ar" and "f64 ar h = h"
  shows "h \<le> f64 ar (h + 100)"
proof -
  have "f64 ar h \<le> f64 ar (h + 100)" using assms(1) by (rule rounding_mono) simp
  with assms(2) show ?thesis by simp
qed

section \<open>The discretiser after construction\<close>

lemma init_Inr:
  assumes "DiscretizedObservationWrapper_init ar e nb low high = Inr w"
  obtains lo hi where "bounds e low high = Some (lo, hi)"
    and "n_bins w = nb"
    and "length (val_bins w) = min (length lo) (length hi)"
    and "\<forall>i<length (val_bins w). linspace ar (lo ! i) (hi ! i) (nb + 1) = Inr (val_bins w ! i)"
    and "observation_space w = Discrete ((nb + 2) ^ length lo)"
    and "action_space w = action_space e"
    and "zip lo hi \<noteq> [] \<longrightarrow> - 1 \<le> nb"
proof (cases "observation_space e")
  case (Discrete n)
  with assms show ?thesis by (simp add: DiscretizedObservationWrapper_init_def)
next
  case (Box el eh)
  define lo where "lo = (case low of None \<Rightarrow> el | Some l \<Rightarrow> l)"
  define hi where "hi = (case high of None \<Rightarrow> eh | Some h \<Rightarrow> h)"
  have b: "bounds e low high = Some (lo, hi)" by (simp add: bounds_def Box lo_def hi_def)
  let ?f = "\<lambda>(l, h). linspace ar l h (nb + 1)"
  from assms Box obtain bins where
    c: "collect (map ?f (zip lo hi)) = Inr bins" and
    w: "w = \<lparr> observation_space = Discrete ((nb + 2) ^ length lo), action_space = action_space e,
            n_bins = nb, val_bins = bins, ob_shape = [length el] \<rparr>"
    by (auto simp: DiscretizedObservationWrapper_init_def Let_def lo_def hi_def split: sum.splits)
  from collect_Inr_D [OF c] have m: "map ?f (zip lo hi) = map Inr bins" .
  then have len: "length bins = min (length lo) (length hi)"
    by (metis length_map length_zip)
  have pt: "linspace ar (lo ! i) (hi ! i) (nb + 1) = Inr (bins ! i)" if "i < length bins" for i
  proof -
    from that len have i: "i < length (zip lo hi)" by simp
    have "map ?f (zip lo hi) ! i = map Inr bins ! i" by (simp only: m)
    with i that show ?thesis by simp
  qed
  have nb: "- 1 \<le> nb" if "zip lo hi \<noteq> []"
  proof (rule ccontr)
    assume "\<not> - 1 \<le> nb"
    then have "linspace ar l h (nb + 1) = Inl ValueError" for l h by (simp add: linspace_neg)
    moreover from that obtain p ps where "zip lo hi = p # ps" by (cases "zip lo hi") auto
    ultimately show False using c by (cases p) simp
  qed
  from b len pt nb show ?thesis by (intro that [of lo hi]) (auto simp: w)
qed

lemma init_edges:
  assumes init: "DiscretizedObservationWrapper_init ar e nb low high = Inr w"
    and bnd: "bounds e low high = Some (lo, hi)"
    and laws: "rounding_laws ar"
    and reg: "list_all (\<lambda>(l, h). regular_bounds ar nb l h) (zip lo hi)"
    and nb: "nb < 2 ^ 51"
  shows "length (val_bins w) = min (length lo) (length hi)
       \<and> (\<forall>i<length (val_bins w). edge_list (lo ! i) (hi ! i) (nat (nb + 1)) (val_bins w ! i))"
proof -
  from init obtain lo' hi' where b': "bounds e low high = Some (lo', hi')"
    and len': "length (val_bins w) = min (length lo') (length hi')"
    and lin': "\<forall>i<length (val_bins w). linspace ar (lo' ! i) (hi' ! i) (nb + 1) = Inr (val_bins w ! i)"
    and nb': "zip lo' hi' \<noteq> [] \<longrightarrow> - 1 \<le> nb"
    by (rule init_Inr) blast
  from b' bnd have eq: "lo' = lo" "hi' = hi" by simp_all
  note len = len' [unfolded eq] and lin = lin' [unfolded eq] and nbl = nb' [unfolded eq]
  have "edge_list (lo ! i) (hi ! i) (nat (nb + 1)) (val_bins w ! i)" if i: "i < length (val_bins w)" for i
  proof -
    from i len have il: "i < length lo" "i < length hi" by simp_all
    then have "zip lo hi \<noteq> []" by auto
    with nbl have n0: "0 \<le> nb + 1" by simp
    from nb have n1: "nb + 1 \<le> 2 ^ 51" by simp
    from reg il have "regular_bounds ar nb (lo ! i) (hi ! i)"
      by (simp add: list_all_length)
    then have r: "f64 ar (lo ! i) = lo ! i" "f64 ar (hi ! i) = hi ! i"
      and wd: "lo ! i = hi ! i \<or> real_of_int (nb + 1 - 1) / 2 ^ 1021 \<le> \<bar>hi ! i - lo ! i\<bar>"
      by (simp_all add: regular_bounds_def representable_def)
    from linspace_edge_list [OF laws r n0 n1 wd] lin i show ?thesis by auto
  qed
  with len show ?thesis by simp
qed

lemma init_observation_digits:
  assumes init: "DiscretizedObservationWrapper_init ar e nb low high = Inr w"
    and bnd: "bounds e low high = Some (lo, hi)"
    and laws: "rounding_laws ar"
    and reg: "list_all (\<lambda>(l, h). regular_bounds ar nb l h) (zip lo hi)"
    and nb: "nb < 2 ^ 51"
  obtains ds where "observation_digits w obs = Inr ds"
    and "length ds = min (length obs) (min (length lo) (length hi))"
    and "\<forall>i<length ds. edge_list (lo ! i) (hi ! i) (nat (nb + 1)) (val_bins w ! i)"
    and "\<forall>i<length ds. digitize (obs ! i) (val_bins w ! i) = Inr (ds ! i)"
    and "ds \<noteq> [] \<longrightarrow> - 1 \<le> nb"
proof -
  from init_edges [OF init bnd laws reg nb]
  have len: "length (val_bins w) = min (length lo) (length hi)"
    and edges: "\<forall>i<length (val_bins w). edge_list (lo ! i) (hi ! i) (nat (nb + 1)) (val_bins w ! i)"
    by simp_all
  from init obtain lo' hi' where b': "bounds e low high = Some (lo', hi')"
    and nb': "zip lo' hi' \<noteq> [] \<longrightarrow> - 1 \<le> nb"
    by (rule init_Inr) blast
  from b' bnd have eq: "lo' = lo" "hi' = hi" by simp_all
  note nbl = nb' [unfolded eq]
  let ?f = "\<lambda>(x, bins). digitize x bins"
  let ?g = "\<lambda>p. projr (?f p)"
  let ?ds = "map ?g (zip obs (val_bins w))"
  have tot: "?f p = Inr (?g p)" if "p \<in> set (zip obs (val_bins w))" for p
  proof -
    obtain x bins where p: "p = (x, bins)" by (cases p)
    with that have "bins \<in> set (val_bins w)" by (auto dest: set_zip_rightD)
    then obtain i where "i < length (val_bins w)" "bins = val_bins w ! i"
      by (auto simp: in_set_conv_nth)
    with edges have "edge_list (lo ! i) (hi ! i) (nat (nb + 1)) bins" by simp
    from edge_list_digitize [OF this] obtain d where "digitize x bins = Inr d" by blast
    then show ?thesis by (simp add: p)
  qed
  have 1: "observation_digits w obs = Inr ?ds"
    unfolding observation_digits_def by (rule collect_map_Inr) (rule tot)
  have 2: "length ?ds = min (length obs) (min (length lo) (length hi))" by (simp add: len)
  have 3: "\<forall>i<length ?ds. edge_list (lo ! i) (hi ! i) (nat (nb + 1)) (val_bins w ! i)"
    using edges by simp
  have 4: "\<forall>i<length ?ds. digitize (obs ! i) (val_bins w ! i) = Inr (?ds ! i)"
  proof (intro allI impI)
    fix i assume i: "i < length ?ds"
    then have "(obs ! i, val_bins w ! i) \<in> set (zip obs (val_bins w))"
      by (auto simp: set_zip)
    from tot [OF this] i show "digitize (obs ! i) (val_bins w ! i) = Inr (?ds ! i)" by simp
  qed
  have 5: "?ds \<noteq> [] \<longrightarrow> - 1 \<le> nb"
  proof
    assume "?ds \<noteq> []"
    then have "zip lo hi \<noteq> []" using len by auto
    with nbl show "- 1 \<le> nb" by simp
  qed
  from 1 2 3 4 5 show ?thesis by (rule that)
qed

lemma edge_list_length: "edge_list l h n ys \<Longrightarrow> length ys = n"
  by (simp add: edge_list_def)

lemma init_digits_range:
  assumes init: "DiscretizedObservationWrapper_init ar e nb low high = Inr w"
    and bnd: "bounds e low high = Some (lo, hi)"
    and laws: "rounding_laws ar"
    and reg: "list_all (\<lambda>(l, h). regular_bounds ar nb l h) (zip lo hi)"
    and nb: "nb < 2 ^ 51"
    and ds: "observation_digits w obs = Inr ds"
  shows "\<forall>d\<in>set ds. 0 \<le> d \<and> d \<le> n_bins w + 1"
proof
  fix d assume d: "d \<in> set ds"
  from init have n: "n_bins w = nb" by (rule init_Inr)
  from init bnd laws reg nb obtain ds' where ds': "observation_digits w obs = Inr ds'"
    and bins: "\<forall>i<length ds'. edge_list (lo ! i) (hi ! i) (nat (nb + 1)) (val_bins w ! i)"
    and dig: "\<forall>i<length ds'. digitize (obs ! i) (val_bins w ! i) = Inr (ds' ! i)"
    and nbl: "ds' \<noteq> [] \<longrightarrow> - 1 \<le> nb"
    by (rule init_observation_digits [where obs = obs]) blast
  from ds' ds have [simp]: "ds' = ds" by simp
  from d obtain i where i: "i < length ds" "d = ds ! i" by (auto simp: in_set_conv_nth)
  from d have "ds \<noteq> []" by auto
  then have "- 1 \<le> nb" using nbl by simp
  moreover from dig i have "digitize (obs ! i) (val_bins w ! i) = Inr d" by simp
  from digitize_range [OF this] edge_list_length bins i
  have "0 \<le> d \<and> d \<le> int (nat (nb + 1))" by auto
  ultimately show "0 \<le> d \<and> d \<le> n_bins w + 1" by (simp add: n)
qed

lemma representable_exact [simp]: "representable exact_arith x"
  by (simp add: representable_def)

lemma example_init:
  "DiscretizedObservationWrapper_init exact_arith example_env 8 (Some example_low) (Some example_high)
     = Inr example_wrapper"
  by (simp add: DiscretizedObservationWrapper_init_def example_env_def example_low_def
      example_high_def example_wrapper_def linspace_def upt_rec [of _ "numeral _"] )


lemma example_bounds:
  "bounds example_env (Some example_low) (Some example_high) = Some (example_low, example_high)"
  by (simp add: bounds_def example_env_def)

lemmas example_eval =
  observation_def observation_digits_def convert_to_one_number_def enumerate_eq_zip
  example_wrapper_def digitize_def monotonicity_def searchsorted_right_def
  example_low_def example_high_def

lemma example_float_init:
  "DiscretizedObservationWrapper_init ieee_arith example_env 8
     (Some example_float_low) (Some example_float_high) = Inr example_float_wrapper"
  by (simp add: DiscretizedObservationWrapper_init_def example_env_def example_float_low_def
      example_float_high_def example_float_wrapper_def linspace_def float_round_eval
      upt_rec [of _ "numeral _"])

lemma example_float_bounds:
  "bounds example_env (Some example_float_low) (Some example_float_high)
     = Some (example_float_low, example_float_high)"
  by (simp add: bounds_def example_env_def)

lemma example_regular:
  "list_all (\<lambda>(l, h). regular_bounds exact_arith 8 l h) (zip example_low example_high)"
  by (simp add: regular_bounds_def example_low_def example_high_def)

lemma example_float_regular:
  "list_all (\<lambda>(l, h). regular_bounds ieee_arith 8 l h) (zip example_float_low example_float_high)"
  by (simp add: regular_bounds_def representable_def example_float_low_def example_float_high_def
      float_round_eval)

lemmas example_float_eval =
  observation_def observation_digits_def convert_to_one_number_def enumerate_eq_zip
  example_float_wrapper_def digitize_def monotonicity_def searchsorted_right_def
  example_float_low_def example_float_high_def

lemma collect_replicate: "collect (replicate n (Inr v)) = Inr (replicate n v)"
  by (induction n) simp_all

lemma linspace_unit:
  "linspace ieee_arith 0 1 9 = Inr [0, 1 / 8, 2 / 8, 3 / 8, 4 / 8, 5 / 8, 6 / 8, 7 / 8, 1]"
  by (simp add: linspace_def float_round_eval upt_rec [of _ "numeral _"])

lemma example_unit_init:
  "DiscretizedObservationWrapper_init ieee_arith (example_unit_env d) 8 None None
     = Inr (example_unit_wrapper d)"
proof -
  have "collect (map (\<lambda>(l, h). linspace ieee_arith l h (8 + 1)) (zip (replicate d 0) (replicate d 1)))
          = Inr (replicate d [0, 1 / 8, 2 / 8, 3 / 8, 4 / 8, 5 / 8, 6 / 8, 7 / 8, 1])"
    by (simp only: zip_replicate map_replicate prod.case linspace_unit collect_replicate
        one_add_one numeral_plus_numeral add_num_simps)
       (simp add: linspace_unit collect_replicate)
  then show ?thesis
    by (simp add: DiscretizedObservationWrapper_init_def example_unit_env_def
        example_unit_wrapper_def)
qed

lemma example_unit_bounds:
  "bounds (example_unit_env d) None None = Some (replicate d 0, replicate d 1)"
  by (simp add: bounds_def example_unit_env_def)

lemma example_large_init:
  "DiscretizedObservationWrapper_init ieee_arith example_env 8
     (Some example_large_low) (Some example_large_high) = Inr example_large_wrapper"
  by (simp add: DiscretizedObservationWrapper_init_def example_env_def example_large_low_def
      example_large_high_def example_large_wrapper_def linspace_def float_round_eval
      upt_rec [of _ "numeral _"])

lemma example_large_bounds:
  "bounds example_env (Some example_large_low) (Some example_large_high)
     = Some (example_large_low, example_large_high)"
  by (simp add: bounds_def example_env_def)

lemma example_unit_digits:
  assumes "digitize x [0, 1 / 8, 2 / 8, 3 / 8, 4 / 8, 5 / 8, 6 / 8, 7 / 8, 1] = Inr k"
  shows "observation_digits (example_unit_wrapper d) (replicate d x) = Inr (replicate d k)"
  using assms
  by (simp add: observation_digits_def example_unit_wrapper_def zip_replicate map_replicate
      collect_replicate del: digitize_def)

text \<open>The floating-point steps of the sum for twenty dimensions.\<close>

lemma example_unit_power:
  "int64_times ieee_arith 8 10000000000000000000 = NpFloat64 80000000000000000000"
  by (simp add: int64_times_def fits_int64_def fits_uint64_def float_round_eval)

lemma example_unit_roundings:
  "float_round 53 (- 1074) 8888888888888888888 = 8888888888888889344"
  "float_round 53 (- 1074) 88888888888888889344 = 88888888888888885248"
  by (simp_all add: float_round_eval)

section \<open>The agent: auxiliary facts\<close>

lemma np_index_less: "np_index n i = Inr k \<Longrightarrow> k < n"
  by (auto simp: np_index_def split: if_splits)

lemma np_max_Max: "xs \<noteq> [] \<Longrightarrow> np_max xs = Inr (Max (set xs))"
  by (cases xs) (simp_all add: np_max_def Max.set_eq_fold [symmetric])

lemma np_max_Inr: "np_max xs = Inr m \<Longrightarrow> xs \<noteq> [] \<and> m = Max (set xs)"
  by (cases xs) (simp_all add: np_max_def Max.set_eq_fold [symmetric])

lemma Q_cell_less: "Q_cell p state action = Inr (i, j) \<Longrightarrow> i < length (Q p) \<and> j < length (Q p ! i)"
  by (auto simp: Q_cell_def split: sum.splits dest: np_index_less)

lemma Q_row_Inr: "Q_row p state = Inr row \<Longrightarrow> row \<in> set (Q p)"
  by (auto simp: Q_row_def split: sum.splits dest!: np_index_less)

text \<open>The two increments \<^verbatim>\<open>_update_q_value\<close> adds to the cell, as the code computes them.\<close>

lemma update_done:
  "Q_cell p state action = Inr (i, j) \<Longrightarrow>
   update_q_value ar p state action new_state reward True
     = Inr (Q_increment ar p i j (f64 ar (alpha p * f64 ar (reward - Q p ! i ! j))))"
  by (simp add: update_q_value_def)

lemma update_not_done:
  "Q_cell p state action = Inr (i, j) \<Longrightarrow> Q_row p new_state = Inr row \<Longrightarrow> row \<noteq> [] \<Longrightarrow>
   update_q_value ar p state action new_state reward False
     = Inr (Q_increment ar p i j
              (f64 ar (alpha p * f64 ar (f64 ar (reward + f64 ar (gamma p * Max (set row)))
                                        - Q p ! i ! j))))"
  by (simp add: update_q_value_def np_max_Max)

lemma update_Inr_cases:
  assumes "update_q_value ar p state action new_state reward done = Inr p'"
  obtains i j x where "Q_cell p state action = Inr (i, j)"
    and "p' = Q_increment ar p i j x"
    and "done \<longrightarrow> x = f64 ar (alpha p * f64 ar (reward - Q p ! i ! j))"
    and "\<not> done \<longrightarrow> (\<exists>row. Q_row p new_state = Inr row \<and> row \<noteq> []
           \<and> x = f64 ar (alpha p * f64 ar (f64 ar (reward + f64 ar (gamma p * Max (set row)))
                                           - Q p ! i ! j)))"
proof (cases "done")
  case True
  with assms obtain i j where c: "Q_cell p state action = Inr (i, j)"
    by (auto simp: update_q_value_def split: sum.splits)
  with assms True show ?thesis
    by (intro that [of i j "f64 ar (alpha p * f64 ar (reward - Q p ! i ! j))"])
       (auto simp: update_done)
next
  case False
  with assms obtain row m i j where r: "Q_row p new_state = Inr row" and m: "np_max row = Inr m"
    and c: "Q_cell p state action = Inr (i, j)"
    by (auto simp: update_q_value_def split: sum.splits)
  from np_max_Inr [OF m] have ne: "row \<noteq> []" and mm: "m = Max (set row)" by simp_all
  with assms False r c show ?thesis
    by (intro that [of i j "f64 ar (alpha p * f64 ar (f64 ar (reward + f64 ar (gamma p * Max (set row)))
                                           - Q p ! i ! j))"])
       (auto simp: update_not_done)
qed

lemma nth_cell_update:
  "i < length M \<Longrightarrow> j < length (M ! i) \<Longrightarrow> M[i := (M ! i)[j := v]] ! i ! j = v"
  by simp

lemma nth_cell_update_other:
  "(i', j') \<noteq> (i, j) \<Longrightarrow> M[i := (M ! i)[j := v]] ! i' ! j' = M ! i' ! j'"
  by (cases "i' = i"; cases "i < length M") (auto simp: list_update_beyond)

lemma Q_increment_cell:
  "i < length (Q p) \<Longrightarrow> j < length (Q p ! i) \<Longrightarrow>
     Q (Q_increment ar p i j x) ! i ! j = f32 ar (f64 ar (Q p ! i ! j + x))"
  by (simp add: Q_increment_def)

lemma Q_increment_fields [simp]:
  "gamma (Q_increment ar p i j x) = gamma p"
  "alpha (Q_increment ar p i j x) = alpha p"
  "alpha_decay (Q_increment ar p i j x) = alpha_decay p"
  "epsilon (Q_increment ar p i j x) = epsilon p"
  "epsilon_final (Q_increment ar p i j x) = epsilon_final p"
  "n_actions (Q_increment ar p i j x) = n_actions p"
  "n_states (Q_increment ar p i j x) = n_states p"
  by (simp_all add: Q_increment_def)

lemma example_policy_init:
  "QLearnPolicy_init example_discrete_env 0.99 0.5 0.998 (PyFloat 1) (PyFloat 0.05)
     = Inr example_zero_policy"
  by (simp add: QLearnPolicy_init_def example_discrete_env_def example_zero_policy_def
      numeral_eq_Suc)

lemma example_cell: "Q_cell example_policy 1 0 = Inr (1, 0)"
  by (simp add: Q_cell_def np_index_def example_policy_def)

lemma example_zero_cell: "Q_cell example_zero_policy 1 0 = Inr (1, 0)"
  by (simp add: Q_cell_def np_index_def example_zero_policy_def)

lemma example_row: "Q_row example_policy 2 = Inr [2, 2]"
  by (simp add: Q_row_def np_index_def example_policy_def)

lemma example_state: "np_index (length (Q example_policy)) 2 = Inr 2"
  by (simp add: np_index_def example_policy_def)

subsection \<open>Bounds, action selection, construction\<close>

lemma convex_step_bound:
  fixes q t a B :: real
  assumes "\<bar>q\<bar> \<le> B" and "\<bar>t\<bar> \<le> B" and "0 < a" and "a \<le> 1"
  shows "\<bar>q + a * (t - q)\<bar> \<le> B"
proof -
  have eq: "q + a * (t - q) = (1 - a) * q + a * t" by (simp add: algebra_simps)
  have "\<bar>(1 - a) * q\<bar> \<le> (1 - a) * B"
    using assms by (simp add: abs_mult mult_left_mono)
  moreover have "\<bar>a * t\<bar> \<le> a * B"
    using assms by (simp add: abs_mult)
  ultimately have "\<bar>(1 - a) * q + a * t\<bar> \<le> (1 - a) * B + a * B"
    by (intro order_trans [OF abs_triangle_ineq] add_mono)
  also have "\<dots> = B" by (simp add: algebra_simps)
  finally show ?thesis by (simp only: eq)
qed

lemma target_bound:
  fixes r g m R :: real
  assumes "\<bar>r\<bar> \<le> R" and "0 \<le> g" and "g < 1" and "\<bar>m\<bar> \<le> R / (1 - g)"
  shows "\<bar>r + g * m\<bar> \<le> R / (1 - g)"
proof -
  define B where "B = R / (1 - g)"
  have "B * (1 - g) = R" using assms(3) by (simp add: B_def)
  then have R: "R = B - g * B" by (simp add: algebra_simps)
  have "\<bar>m\<bar> \<le> B" using assms(4) by (simp only: B_def)
  then have "g * \<bar>m\<bar> \<le> g * B" using assms(2) by (rule mult_left_mono)
  then have "\<bar>g * m\<bar> \<le> g * B" using assms(2) by (simp add: abs_mult)
  then have "\<bar>r + g * m\<bar> \<le> R + g * B"
    using assms(1) by (intro order_trans [OF abs_triangle_ineq] add_mono)
  then have "\<bar>r + g * m\<bar> \<le> B" by (simp add: R)
  then show ?thesis by (simp only: B_def)
qed

lemma reward_bound:
  fixes r g R :: real
  assumes "\<bar>r\<bar> \<le> R" and "0 \<le> g" and "g < 1"
  shows "\<bar>r\<bar> \<le> R / (1 - g)"
proof -
  have "0 \<le> R" using assms(1) by simp
  then have "R * (1 - g) \<le> R * 1" using assms(2) by (intro mult_left_mono) simp_all
  then have "R \<le> R / (1 - g)" using assms(3) by (simp add: field_simps)
  with assms(1) show ?thesis by simp
qed

lemma Max_abs_bound:
  fixes row :: "real list"
  assumes "row \<noteq> []" and "\<forall>q\<in>set row. \<bar>q\<bar> \<le> B"
  shows "\<bar>Max (set row)\<bar> \<le> B"
proof -
  have "Max (set row) \<in> set row" using assms(1) by (intro Max_in) simp_all
  with assms(2) show ?thesis by blast
qed

lemma update_preserves_bound:
  assumes upd: "update_q_value exact_arith p state action new_state reward done = Inr p'"
    and g: "0 \<le> gamma p" "gamma p < 1" and a: "0 < alpha p" "alpha p \<le> 1"
    and r: "\<bar>reward\<bar> \<le> R"
    and b: "Q_bounded (R / (1 - gamma p)) p"
  shows "Q_bounded (R / (1 - gamma p)) p'"
proof -
  let ?B = "R / (1 - gamma p)"
  from upd obtain i j x where c: "Q_cell p state action = Inr (i, j)"
    and p'0: "p' = Q_increment exact_arith p i j x"
    and xd: "done \<longrightarrow> x = f64 exact_arith (alpha p * f64 exact_arith (reward - Q p ! i ! j))"
    and xn: "\<not> done \<longrightarrow> (\<exists>row. Q_row p new_state = Inr row \<and> row \<noteq> []
           \<and> x = f64 exact_arith (alpha p * f64 exact_arith
                     (f64 exact_arith (reward + f64 exact_arith (gamma p * Max (set row)))
                      - Q p ! i ! j)))"
    by (rule update_Inr_cases) blast
  define t where "t = (if done then reward
                       else reward + gamma p * Max (set (projr (Q_row p new_state))))"
  have x: "x = alpha p * (t - Q p ! i ! j)" using xd xn by (auto simp: t_def)
  have p': "p' = p\<lparr>Q := (Q p)[i := (Q p ! i)[j := Q p ! i ! j + alpha p * (t - Q p ! i ! j)]]\<rparr>"
    by (simp add: p'0 Q_increment_def x)
  have td: "done \<longrightarrow> t = reward" by (simp add: t_def)
  have tn: "\<not> done \<longrightarrow> (\<exists>row. Q_row p new_state = Inr row \<and> row \<noteq> []
                \<and> t = reward + gamma p * Max (set row))"
    using xn by (auto simp: t_def)
  from Q_cell_less [OF c] have i: "i < length (Q p)" and j: "j < length (Q p ! i)" by simp_all
  have "Q p ! i \<in> set (Q p)" using i by simp
  with b have rowi: "\<forall>q\<in>set (Q p ! i). \<bar>q\<bar> \<le> ?B" unfolding Q_bounded_def by blast
  then have q: "\<bar>Q p ! i ! j\<bar> \<le> ?B" using j by simp
  have t: "\<bar>t\<bar> \<le> ?B"
  proof (cases "done")
    case True
    with td r g show ?thesis by (simp add: reward_bound)
  next
    case False
    with tn obtain row where row: "Q_row p new_state = Inr row" "row \<noteq> []"
      and t: "t = reward + gamma p * Max (set row)" by blast
    from Q_row_Inr [OF row(1)] b have "\<forall>q\<in>set row. \<bar>q\<bar> \<le> ?B" by (simp add: Q_bounded_def)
    from Max_abs_bound [OF row(2) this] r g show ?thesis unfolding t by (intro target_bound)
  qed
  have new: "\<bar>Q p ! i ! j + alpha p * (t - Q p ! i ! j)\<bar> \<le> ?B"
    using q t a by (rule convex_step_bound)
  show ?thesis unfolding Q_bounded_def
  proof (intro ballI)
    fix row x assume row: "row \<in> set (Q p')" and x: "x \<in> set row"
    from row have "row \<in> insert ((Q p ! i)[j := Q p ! i ! j + alpha p * (t - Q p ! i ! j)]) (set (Q p))"
      using set_update_subset_insert by (fastforce simp: p')
    then show "\<bar>x\<bar> \<le> ?B"
    proof
      assume "row = (Q p ! i)[j := Q p ! i ! j + alpha p * (t - Q p ! i ! j)]"
      with x have "x \<in> insert (Q p ! i ! j + alpha p * (t - Q p ! i ! j)) (set (Q p ! i))"
        using set_update_subset_insert by fastforce
      with new rowi show ?thesis by auto
    next
      assume "row \<in> set (Q p)"
      with b x show ?thesis by (simp add: Q_bounded_def)
    qed
  qed
qed

lemma update_keeps_fields:
  "update_q_value ar p state action new_state reward done = Inr p' \<Longrightarrow>
     gamma p' = gamma p \<and> alpha p' = alpha p \<and> alpha_decay p' = alpha_decay p
       \<and> epsilon p' = epsilon p \<and> epsilon_final p' = epsilon_final p"
  by (erule update_Inr_cases) simp

lemma explores_not:
  "\<not> (training \<and> num_val (epsilon p) > 0 \<and> fst (random_rand ops w) < num_val (epsilon p)) \<Longrightarrow>
     \<not> fst (explores ops p training w)"
  by (auto simp: explores_def split: prod.splits)

lemma random_choice_mem:
  "fst (random_choice ops a w) = Inr x \<Longrightarrow> x \<in> set a"
  by (auto simp: random_choice_def split: if_splits prod.splits)

lemma random_choice_total:
  "a \<noteq> [] \<Longrightarrow> \<exists>x. fst (random_choice ops a w) = Inr x"
  by (auto simp: random_choice_def split: prod.splits)

lemma random_choice_reach:
  assumes "x \<in> set a"
  shows "\<exists>k. fst (random_choice (ops\<lparr>random_draw := \<lambda>n w. (k, w)\<rparr>) a w) = Inr x"
proof -
  from assms obtain k where "k < length a" "a ! k = x" by (auto simp: in_set_conv_nth)
  then have "fst (random_choice (ops\<lparr>random_draw := \<lambda>n w. (k, w)\<rparr>) a w) = Inr x"
    by (auto simp: random_choice_def)
  then show ?thesis ..
qed

lemma act_greedy_unfold:
  assumes "np_index (length (Q p)) state = Inr i" and "\<not> fst (explores ops p training w)"
    and "Q p ! i \<noteq> []" and "length (Q p ! i) = nat (n_actions p)"
  shows "fst (act ops p state training w)
           = fst (random_choice ops
                   (map int (filter (\<lambda>a. Q p ! i ! a = Max (set (Q p ! i))) [0..<nat (n_actions p)]))
                   (snd (explores ops p training w)))"
proof -
  obtain e w1 where ex: "explores ops p training w = (e, w1)" by (cases "explores ops p training w")
  with assms(2) have "\<not> e" by simp
  with assms(1,3,4) ex show ?thesis
    by (simp add: act_def Q_row_def np_max_Max actions_with_max_q_def)
qed

lemma act_greedy_Inr:
  assumes "np_index (length (Q p)) state = Inr i" and "\<not> fst (explores ops p training w)"
    and "fst (act ops p state training w) = Inr a"
  shows "Q p ! i \<noteq> [] \<and> length (Q p ! i) = nat (n_actions p)"
proof -
  obtain e w1 where ex: "explores ops p training w = (e, w1)" by (cases "explores ops p training w")
  with assms(2) have "\<not> e" by simp
  with assms(1,3) ex show ?thesis
    by (auto simp: act_def Q_row_def np_max_def actions_with_max_q_def
        split: list.splits sum.splits if_splits)
qed

lemma is_max_action_iff:
  assumes "length (Q p ! i) = nat (n_actions p)"
  shows "is_max_action p i a \<longleftrightarrow>
           a \<in> set (map int (filter (\<lambda>a. Q p ! i ! a = Max (set (Q p ! i))) [0..<nat (n_actions p)]))"
    (is "?L \<longleftrightarrow> ?R")
proof
  assume L: ?L
  let ?row = "Q p ! i"
  from L have a: "0 \<le> a" "nat a < length ?row" and mx: "\<forall>q\<in>set ?row. q \<le> ?row ! nat a"
    by (simp_all add: is_max_action_def)
  have "?row ! nat a \<in> set ?row" using a by simp
  then have "Max (set ?row) = ?row ! nat a" using mx by (intro Max_eqI) auto
  with a assms have "nat a \<in> set (filter (\<lambda>a. ?row ! a = Max (set ?row)) [0..<nat (n_actions p)])"
    by simp
  then have "int (nat a) \<in> set (map int (filter (\<lambda>a. ?row ! a = Max (set ?row)) [0..<nat (n_actions p)]))"
    unfolding set_map by (rule imageI)
  with a show ?R by simp
next
  assume R: ?R
  let ?row = "Q p ! i"
  from R obtain k where k: "a = int k" "k < nat (n_actions p)" "?row ! k = Max (set ?row)" by auto
  with assms have ne: "set ?row \<noteq> {}" by auto
  have "\<forall>q\<in>set ?row. q \<le> ?row ! k" using k(3) ne by simp
  with k assms show ?L by (simp add: is_max_action_def)
qed




subsection \<open>The training loop\<close>









lemma num_val_py_div_exact:
  "num_val (py_div exact_arith (PyFloat x) n) = x / real_of_int n"
  by simp

section \<open>The discretiser: claims\<close>

text \<open>
  Claim C3, as amended. For per-dimension bin indices that lie in \<open>[0, n_bins + 1]\<close> and
  are few enough for the number of states \<open>(n_bins + 2) ^ k\<close> to be at most \<open>2 ^ 63\<close>,
  \<open>convert_to_one_number\<close> returns the sum over \<open>i\<close> of \<open>d\<^sub>i * (n_bins + 2) ^ i\<close>, as a
  \<^verbatim>\<open>np.int64\<close> (as the Python integer \<open>0\<close> when there is no dimension), and the index of
  dimension \<open>i\<close> is digit \<open>i\<close> of that number in base \<open>n_bins + 2\<close>, dimension \<open>0\<close> being the
  least significant digit. Without the bound on the number of states the claim fails:
  the indices are \<^verbatim>\<open>np.int64\<close> values and the sum wraps around, as the counterexample
  after the theorem shows.
\<close>

theorem convert_to_one_number_mixed_radix:
  assumes "\<forall>d\<in>set ds. 0 \<le> d \<and> d \<le> n_bins w + 1"
    and "(n_bins w + 2) ^ length ds \<le> 2 ^ 63"
  shows "convert_to_one_number ar w ds
           = (if ds = [] then PyInteger 0
              else NpInt64 (\<Sum>i<length ds. ds ! i * (n_bins w + 2) ^ i))
     \<and> integer_value (convert_to_one_number ar w ds)
           = Some (\<Sum>i<length ds. ds ! i * (n_bins w + 2) ^ i)
     \<and> (\<forall>i<length ds.
           (\<Sum>i<length ds. ds ! i * (n_bins w + 2) ^ i) div (n_bins w + 2) ^ i mod (n_bins w + 2)
             = ds ! i)"
proof -
  from assms(1) have d: "\<forall>d\<in>set ds. 0 \<le> d \<and> d < n_bins w + 2" by fastforce
  note s = mixed_radix_sum [of "n_bins w + 2" ds]
  from convert_to_one_number_int64 [OF d assms(2), of ar]
  have 1: "convert_to_one_number ar w ds
           = (if ds = [] then PyInteger 0
              else NpInt64 (\<Sum>i<length ds. ds ! i * (n_bins w + 2) ^ i))"
    by (simp only: s)
  from integer_value_convert [OF assms, of ar]
  have 2: "integer_value (convert_to_one_number ar w ds)
           = Some (\<Sum>i<length ds. ds ! i * (n_bins w + 2) ^ i)"
    by (simp only: s)
  have 3: "(\<Sum>i<length ds. ds ! i * (n_bins w + 2) ^ i) div (n_bins w + 2) ^ i mod (n_bins w + 2)
             = ds ! i" if "i < length ds" for i
    using mixed_radix_digit [OF d that] by (simp only: s)
  from 1 2 3 show ?thesis by blast
qed

theorem convert_to_one_number_mixed_radix_witness:
  "convert_to_one_number ieee_arith example_wrapper [5, 4, 5, 9]
     = NpInt64 (5 * 10 ^ 0 + 4 * 10 ^ 1 + 5 * 10 ^ 2 + 9 * 10 ^ 3)
     \<and> (5 * 10 ^ 0 + 4 * 10 ^ 1 + 5 * 10 ^ 2 + 9 * 10 ^ 3) div 10 ^ 3 mod 10 = (9::int)"
proof -
  have nb: "n_bins example_wrapper = 8" by (simp add: example_wrapper_def)
  have rng: "\<forall>d\<in>set [5, 4, 5, 9 :: int]. 0 \<le> d \<and> d \<le> n_bins example_wrapper + 1"
    by (simp add: nb)
  have size: "(n_bins example_wrapper + 2) ^ length [5, 4, 5, 9 :: int] \<le> 2 ^ 63"
    by (simp add: nb)
  from convert_to_one_number_mixed_radix [OF rng size, of ieee_arith]
  have "convert_to_one_number ieee_arith example_wrapper [5, 4, 5, 9]
          = NpInt64 (\<Sum>i<length [5, 4, 5, 9 :: int]. [5, 4, 5, 9] ! i * (n_bins example_wrapper + 2) ^ i)"
    by simp
  then have "convert_to_one_number ieee_arith example_wrapper [5, 4, 5, 9]
      = NpInt64 (5 * 10 ^ 0 + 4 * 10 ^ 1 + 5 * 10 ^ 2 + 9 * 10 ^ 3)"
    by (simp add: nb lessThan_Suc)
  then show ?thesis by simp
qed

text \<open>
  The claim as it stands fails: for nineteen dimensions, eight bins and every index
  equal to \<open>9\<close>, the sum of the \<open>d\<^sub>i * 10 ^ i\<close> is \<open>10 ^ 19 - 1\<close>, and the \<^verbatim>\<open>np.int64\<close> the code
  returns is negative.
\<close>

theorem convert_to_one_number_wraps_counterexample:
  "convert_to_one_number ieee_arith example_wrapper ([9, 9, 9, 9, 9, 9, 9, 9, 9, 9, 9, 9, 9, 9, 9, 9, 9, 9, 9] :: int list)
     = NpInt64 (- 8446744073709551617)
   \<and> (\<Sum>i<length ([9, 9, 9, 9, 9, 9, 9, 9, 9, 9, 9, 9, 9, 9, 9, 9, 9, 9, 9] :: int list). ([9, 9, 9, 9, 9, 9, 9, 9, 9, 9, 9, 9, 9, 9, 9, 9, 9, 9, 9] :: int list) ! i * (n_bins example_wrapper + 2) ^ i) = 9999999999999999999"
proof -
  have nb: "n_bins example_wrapper = 8" by (simp add: example_wrapper_def)
  have "convert_to_one_number ieee_arith example_wrapper ([9, 9, 9, 9, 9, 9, 9, 9, 9, 9, 9, 9, 9, 9, 9, 9, 9, 9, 9] :: int list) = NpInt64 (- 8446744073709551617)"
    by (simp add: convert_to_one_number_def nb int64_times_def int64_plus_def fits_int64_def
        wrap64_def)
  moreover have "(\<Sum>i<length ([9, 9, 9, 9, 9, 9, 9, 9, 9, 9, 9, 9, 9, 9, 9, 9, 9, 9, 9] :: int list). ([9, 9, 9, 9, 9, 9, 9, 9, 9, 9, 9, 9, 9, 9, 9, 9, 9, 9, 9] :: int list) ! i * (n_bins example_wrapper + 2) ^ i)
      = 9999999999999999999"
    by (simp add: mixed_radix_sum [symmetric] mixed_radix_Cons nb)
  ultimately show ?thesis by blast
qed

text \<open>
  Claim C4, as amended. For a wrapper built with at least one bin per dimension (the
  claim's \<open>n_bins = 8\<close> in particular) over regular bounds, with at most \<open>2 ^ 63\<close> states,
  and an input vector, of the wrapper's dimension, whose every component lies in
  \<open>[low[i], high[i])\<close>: \<open>observation\<close> returns an integer state, decoding that state by
  repeated modulo and division by \<open>n_bins + 2\<close> gives back the per-dimension bin
  indices, and every decoded index lies in \<open>[1, n_bins]\<close>. This holds in every arithmetic
  with the rounding laws, exact or machine, for fewer than \<open>2 ^ 51\<close> bins. With more
  than \<open>2 ^ 63\<close> states the claim fails, as the counterexample after the theorem shows.
\<close>

theorem observation_decodes_to_inner_bins:
  assumes "DiscretizedObservationWrapper_init ar e nb low high = Inr w"
    and "bounds e low high = Some (lo, hi)"
    and "rounding_laws ar"
    and "list_all (\<lambda>(l, h). regular_bounds ar nb l h) (zip lo hi)"
    and "1 \<le> nb" and "nb < 2 ^ 51"
    and "length hi = length lo" and "length obs = length lo"
    and "(nb + 2) ^ length lo \<le> 2 ^ 63"
    and "\<forall>i<length obs. lo ! i \<le> obs ! i \<and> obs ! i < hi ! i"
  shows "\<exists>sc s ds. observation ar w obs = Inr sc \<and> integer_value sc = Some s
           \<and> observation_digits w obs = Inr ds
           \<and> length ds = length obs
           \<and> decode_digits (n_bins w + 2) (length obs) s = ds
           \<and> (\<forall>d\<in>set (decode_digits (n_bins w + 2) (length obs) s). 1 \<le> d \<and> d \<le> n_bins w)"
proof -
  note given = assms(1-4,6)
  from given obtain ds where ds: "observation_digits w obs = Inr ds"
    and len: "length ds = min (length obs) (min (length lo) (length hi))"
    and bins: "\<forall>i<length ds. edge_list (lo ! i) (hi ! i) (nat (nb + 1)) (val_bins w ! i)"
    and dig: "\<forall>i<length ds. digitize (obs ! i) (val_bins w ! i) = Inr (ds ! i)"
    by (rule init_observation_digits [where obs = obs]) blast
  from assms(1) have n: "n_bins w = nb" by (rule init_Inr)
  from len assms(7,8) have len': "length ds = length obs" by simp
  have rng: "\<forall>d\<in>set ds. 0 \<le> d \<and> d \<le> n_bins w + 1"
    using given ds by (rule init_digits_range)
  then have rng': "\<forall>d\<in>set ds. 0 \<le> d \<and> d < n_bins w + 2" by fastforce
  have size: "(n_bins w + 2) ^ length ds \<le> 2 ^ 63" using assms(8,9) by (simp add: n len')
  let ?s = "mixed_radix (n_bins w + 2) ds"
  have iv: "integer_value (convert_to_one_number ar w ds) = Some ?s"
    using rng size by (rule integer_value_convert)
  have dec: "decode_digits (n_bins w + 2) (length obs) ?s = ds"
    using decode_mixed_radix [OF rng'] by (simp add: len')
  have inner: "1 \<le> ds ! i \<and> ds ! i \<le> n_bins w" if i: "i < length ds" for i
  proof -
    let ?n = "nat (nb + 1)"
    let ?bins = "val_bins w ! i" and ?x = "obs ! i"
    from i assms(10) len' have x: "lo ! i \<le> ?x" "?x < hi ! i" by auto
    then have le: "lo ! i \<le> hi ! i" by simp
    have n1: "1 < ?n" using assms(5) by simp
    from bins i have el: "edge_list (lo ! i) (hi ! i) ?n ?bins" by simp
    with le n1 have srt: "sorted ?bins" and ln: "length ?bins = ?n"
      and hd: "hd ?bins = lo ! i" and lst: "last ?bins = hi ! i"
      by (simp_all add: edge_list_def)
    have ne: "?bins \<noteq> []" using ln n1 by auto
    let ?k = "searchsorted_right ?bins ?x"
    have d: "ds ! i = int ?k"
      using dig i digitize_ascending [OF srt, of ?x] by simp
    note fg = searchsorted_right_first_greater [of ?bins ?x]
    have "?k \<noteq> 0"
    proof
      assume "?k = 0"
      with fg ln n1 have "?x < ?bins ! 0" by simp
      also have "?bins ! 0 = lo ! i" using ne hd by (simp add: hd_conv_nth)
      finally show False using x by simp
    qed
    moreover have "?k \<noteq> ?n"
    proof
      assume k: "?k = ?n"
      with fg n1 have "?bins ! (?n - 1) \<le> ?x" by simp
      moreover have "?bins ! (?n - 1) = hi ! i" using ne lst ln by (simp add: last_conv_nth)
      ultimately show False using x by simp
    qed
    moreover have "?k \<le> ?n" using searchsorted_right_le [of ?bins ?x] ln by simp
    ultimately have "1 \<le> ?k" "?k < ?n" by linarith+
    then show ?thesis using assms(5) by (simp add: d n)
  qed
  then have "\<forall>d\<in>set ds. 1 \<le> d \<and> d \<le> n_bins w" by (auto simp: in_set_conv_nth)
  with ds dec len' iv show ?thesis by (simp add: observation_def)
qed

theorem observation_decodes_to_inner_bins_witness:
  "observation ieee_arith example_float_wrapper [0.125] = Inr (NpInt64 5)
     \<and> observation_digits example_float_wrapper [0.125] = Inr [5]
     \<and> decode_digits (n_bins example_float_wrapper + 2) (length [0.125 :: real]) 5 = [5]
     \<and> observation exact_arith example_wrapper example_obs = Inr (NpInt64 8545)
     \<and> observation_digits example_wrapper example_obs = Inr [5, 4, 5, 8]
     \<and> decode_digits (n_bins example_wrapper + 2) (length example_obs) 8545 = [5, 4, 5, 8]"
proof -
  have 1: "(1::int) \<le> 8" "(8::int) < 2 ^ 51" by simp_all
  have 2: "length example_high = length example_low"
    by (simp add: example_low_def example_high_def)
  have 3: "length example_obs = length example_low"
    by (simp add: example_low_def example_obs_def)
  have 4: "((8::int) + 2) ^ length example_low \<le> 2 ^ 63" by (simp add: example_low_def)
  have 5: "\<forall>i<length example_obs.
          example_low ! i \<le> example_obs ! i \<and> example_obs ! i < example_high ! i"
    by (simp add: example_low_def example_high_def example_obs_def All_less_Suc)
  from observation_decodes_to_inner_bins
    [OF example_init example_bounds rounding_laws_exact example_regular 1 2 3 4 5]
  obtain sc s ds where sc: "observation exact_arith example_wrapper example_obs = Inr sc"
    and s: "integer_value sc = Some s"
    and ds: "observation_digits example_wrapper example_obs = Inr ds"
    and dec: "decode_digits (n_bins example_wrapper + 2) (length example_obs) s = ds"
    by blast
  have "observation_digits example_wrapper example_obs = Inr [5, 4, 5, 8]"
    by (simp add: example_eval example_obs_def)
  with ds have ds': "ds = [5, 4, 5, 8]" by simp
  have o: "observation exact_arith example_wrapper example_obs = Inr (NpInt64 8545)"
    by (simp add: example_eval example_obs_def int64_times_def int64_plus_def fits_int64_def
        wrap64_def)
  with sc s have "s = 8545" by auto
  with o ds dec ds' have a: "observation exact_arith example_wrapper example_obs = Inr (NpInt64 8545)
     \<and> observation_digits example_wrapper example_obs = Inr [5, 4, 5, 8]
     \<and> decode_digits (n_bins example_wrapper + 2) (length example_obs) 8545 = [5, 4, 5, 8]"
    by simp
  have f2: "length example_float_high = length example_float_low"
    by (simp add: example_float_low_def example_float_high_def)
  have f3: "length [0.125 :: real] = length example_float_low"
    by (simp add: example_float_low_def)
  have f4: "((8::int) + 2) ^ length example_float_low \<le> 2 ^ 63"
    by (simp add: example_float_low_def)
  have f5: "\<forall>i<length [0.125 :: real].
          example_float_low ! i \<le> [0.125] ! i \<and> [0.125] ! i < example_float_high ! i"
    by (simp add: example_float_low_def example_float_high_def)
  from observation_decodes_to_inner_bins
    [OF example_float_init example_float_bounds rounding_laws_ieee example_float_regular 1 f2 f3 f4 f5]
  obtain sc' s' ds' where sc': "observation ieee_arith example_float_wrapper [0.125] = Inr sc'"
    and s': "integer_value sc' = Some s'"
    and fds: "observation_digits example_float_wrapper [0.125] = Inr ds'"
    and fdec: "decode_digits (n_bins example_float_wrapper + 2) (length [0.125 :: real]) s' = ds'"
    by blast
  have "observation_digits example_float_wrapper [0.125] = Inr [5]"
    by (simp add: example_float_eval)
  with fds have fds': "ds' = [5]" by simp
  have fo: "observation ieee_arith example_float_wrapper [0.125] = Inr (NpInt64 5)"
    by (simp add: example_float_eval int64_times_def int64_plus_def fits_int64_def wrap64_def)
  with sc' s' have "s' = 5" by auto
  with fo fds fdec fds' have b: "observation ieee_arith example_float_wrapper [0.125] = Inr (NpInt64 5)
     \<and> observation_digits example_float_wrapper [0.125] = Inr [5]
     \<and> decode_digits (n_bins example_float_wrapper + 2) (length [0.125 :: real]) 5 = [5]"
    by simp
  from a b show ?thesis by blast
qed

text \<open>
  The claim as it stands fails: for twenty dimensions and eight bins, with every
  component in the last inner bin, the power \<open>10 ^ 19\<close> is beyond \<^verbatim>\<open>int64\<close>, the state is a
  \<^verbatim>\<open>float64\<close>, and the integer it denotes does not decode to the indices.
\<close>

theorem observation_float_state_counterexample:
  "DiscretizedObservationWrapper_init ieee_arith (example_unit_env 20) 8 None None
      = Inr (example_unit_wrapper 20)
   \<and> observation_digits (example_unit_wrapper 20) (replicate 20 (15 / 16)) = Inr (replicate 20 8)
   \<and> observation ieee_arith (example_unit_wrapper 20) (replicate 20 (15 / 16))
      = Inr (NpFloat64 88888888888888885248)
   \<and> decode_digits (n_bins (example_unit_wrapper 20) + 2) 20 88888888888888885248
      = [8, 4, 2, 5, 8, 8, 8, 8, 8, 8, 8, 8, 8, 8, 8, 8, 8, 8, 8, 8]"
proof -
  have nb: "n_bins (example_unit_wrapper 20) = 8" by (simp add: example_unit_wrapper_def)
  have "digitize (15 / 16) [0, 1 / 8, 2 / 8, 3 / 8, 4 / 8, 5 / 8, 6 / 8, 7 / 8, 1] = Inr 8"
    by (simp add: digitize_def monotonicity_def searchsorted_right_def)
  then have ds: "observation_digits (example_unit_wrapper 20) (replicate 20 (15 / 16))
      = Inr (replicate 20 8)"
    by (rule example_unit_digits)
  have r: "replicate 20 (8::int) = [8, 8, 8, 8, 8, 8, 8, 8, 8, 8, 8, 8, 8, 8, 8, 8, 8, 8, 8, 8]"
    by (simp add: numeral_eq_Suc)
  have c: "convert_to_one_number ieee_arith (example_unit_wrapper 20)
             [8, 8, 8, 8, 8, 8, 8, 8, 8, 8, 8, 8, 8, 8, 8, 8, 8, 8, 8, 8]
           = NpFloat64 88888888888888885248"
    by (simp add: convert_to_one_number_def nb int64_times_fits example_unit_power
        example_unit_roundings int64_plus_def fits_int64_def wrap64_def)
  have o: "observation ieee_arith (example_unit_wrapper 20) (replicate 20 (15 / 16))
      = Inr (NpFloat64 88888888888888885248)"
    by (simp only: observation_def ds r c sum.case)
  have "decode_digits 10 20 88888888888888885248
      = [8, 4, 2, 5, 8, 8, 8, 8, 8, 8, 8, 8, 8, 8, 8, 8, 8, 8, 8, 8]"
    by code_simp
  then have d: "decode_digits (n_bins (example_unit_wrapper 20) + 2) 20 88888888888888885248
      = [8, 4, 2, 5, 8, 8, 8, 8, 8, 8, 8, 8, 8, 8, 8, 8, 8, 8, 8, 8]"
    by (simp add: nb)
  from example_unit_init [of 20] ds o d show ?thesis by blast
qed

text \<open>
  Claim C5, as amended. For a wrapper built over regular bounds with a number of bins
  that is not negative, in every dimension whose bounds are in order (\<open>low[i] \<le> high[i]\<close>,
  the ascending edges the specification's data model prescribes) the bin index is the
  index of the first edge strictly greater than the component. A component below
  \<open>low[i]\<close> gets index \<open>0\<close>, and a component at or above \<open>high[i]\<close> gets index
  \<open>n_bins + 1\<close>. The double \<^verbatim>\<open>high[i] + 100\<close> is such a component. The double
  \<^verbatim>\<open>low[i] - 100\<close> is below \<open>low[i]\<close>, and gets index \<open>0\<close>, when \<open>low[i]\<close> is at most \<open>2 ^ 58\<close>
  in magnitude; for a larger bound it can be \<open>low[i]\<close> itself, which lies in bin \<open>1\<close>, as
  the counterexample after the theorem shows. The claim's dimension \<open>0\<close> is the case
  \<open>i = 0\<close>. This holds in every arithmetic with the rounding laws, exact or machine, for
  fewer than \<open>2 ^ 51\<close> bins.
\<close>

theorem observation_outlier_bins:
  assumes "DiscretizedObservationWrapper_init ar e nb low high = Inr w"
    and "bounds e low high = Some (lo, hi)"
    and "rounding_laws ar"
    and "list_all (\<lambda>(l, h). regular_bounds ar nb l h) (zip lo hi)"
    and "nb < 2 ^ 51" and "0 \<le> nb"
  shows "\<exists>ds. observation_digits w obs = Inr ds
           \<and> length ds = min (length obs) (min (length lo) (length hi))
           \<and> (\<forall>i<length ds. lo ! i \<le> hi ! i \<longrightarrow>
                 first_edge_greater (val_bins w ! i) (obs ! i) (ds ! i)
                 \<and> (obs ! i < lo ! i \<longrightarrow> ds ! i = 0)
                 \<and> (hi ! i \<le> obs ! i \<longrightarrow> ds ! i = n_bins w + 1)
                 \<and> (obs ! i = f64 ar (lo ! i - 100) \<and> \<bar>lo ! i\<bar> \<le> 2 ^ 58 \<longrightarrow> ds ! i = 0)
                 \<and> (obs ! i = f64 ar (hi ! i + 100) \<longrightarrow> ds ! i = n_bins w + 1))"
proof -
  note given = assms(1-5)
  from given obtain ds where ds: "observation_digits w obs = Inr ds"
    and len: "length ds = min (length obs) (min (length lo) (length hi))"
    and bins: "\<forall>i<length ds. edge_list (lo ! i) (hi ! i) (nat (nb + 1)) (val_bins w ! i)"
    and dig: "\<forall>i<length ds. digitize (obs ! i) (val_bins w ! i) = Inr (ds ! i)"
    by (rule init_observation_digits [where obs = obs]) blast
  from assms(1) have n: "n_bins w = nb" by (rule init_Inr)
  have "first_edge_greater (val_bins w ! i) (obs ! i) (ds ! i)
          \<and> (obs ! i < lo ! i \<longrightarrow> ds ! i = 0) \<and> (hi ! i \<le> obs ! i \<longrightarrow> ds ! i = n_bins w + 1)
          \<and> (obs ! i = f64 ar (lo ! i - 100) \<and> \<bar>lo ! i\<bar> \<le> 2 ^ 58 \<longrightarrow> ds ! i = 0)
          \<and> (obs ! i = f64 ar (hi ! i + 100) \<longrightarrow> ds ! i = n_bins w + 1)"
    if i: "i < length ds" and le: "lo ! i \<le> hi ! i" for i
  proof -
    let ?n = "nat (nb + 1)"
    let ?bins = "val_bins w ! i" and ?x = "obs ! i"
    from bins i have el: "edge_list (lo ! i) (hi ! i) ?n ?bins" by simp
    with le have srt: "sorted ?bins" and ln: "length ?bins = ?n"
      and bd: "\<forall>b\<in>set ?bins. lo ! i \<le> b \<and> b \<le> hi ! i"
      and hd: "0 < ?n \<longrightarrow> hd ?bins = lo ! i"
      by (simp_all add: edge_list_def)
    from i len have "i < length (zip lo hi)" by simp
    with assms(4) have "regular_bounds ar nb (lo ! i) (hi ! i)" by (simp add: list_all_length)
    then have rh: "f64 ar (hi ! i) = hi ! i" by (simp add: regular_bounds_def representable_def)
    have d: "ds ! i = int (searchsorted_right ?bins ?x)"
      using dig i digitize_ascending [OF srt, of ?x] by simp
    have pos: "0 < ?n" using assms(6) by simp
    have 1: "first_edge_greater ?bins ?x (ds ! i)"
      using digitize_first_edge_greater [OF srt, of ?x] dig i by simp
    have 2: "ds ! i = 0" if "?x < lo ! i"
    proof -
      from pos ln have "?bins \<noteq> []" by auto
      moreover have "hd ?bins = lo ! i" using pos hd by simp
      ultimately have "searchsorted_right ?bins ?x = 0"
        using that by (intro searchsorted_right_none) simp_all
      then show ?thesis by (simp add: d)
    qed
    have 3: "ds ! i = n_bins w + 1" if "hi ! i \<le> ?x"
    proof -
      have "\<forall>b\<in>set ?bins. b \<le> ?x" using bd that by fastforce
      then have "searchsorted_right ?bins ?x = length ?bins" by (rule searchsorted_right_all)
      then show ?thesis using assms(6) ln by (simp add: d n)
    qed
    have 4: "ds ! i = 0" if "?x = f64 ar (lo ! i - 100)" "\<bar>lo ! i\<bar> \<le> 2 ^ 58"
      using rounding_below [OF assms(3) that(2)] that(1) by (intro 2) simp
    have 5: "ds ! i = n_bins w + 1" if "?x = f64 ar (hi ! i + 100)"
      using rounding_above [OF assms(3) rh] that by (intro 3) simp
    from 1 2 3 4 5 show ?thesis by blast
  qed
  with ds len show ?thesis by (intro exI [of _ ds]) auto
qed

theorem observation_outlier_bins_witness:
  "(\<exists>ds. observation_digits example_wrapper [- 102.4, 0, 0, 0] = Inr ds \<and> ds ! 0 = 0)
     \<and> (\<exists>ds. observation_digits example_wrapper [102.4, 0, 0, 0] = Inr ds \<and> ds ! 0 = 9)
     \<and> (\<exists>ds. observation_digits example_float_wrapper
                 [f64 ieee_arith (example_float_low ! 0 - 100)] = Inr ds
            \<and> ds ! 0 = 0)
     \<and> (\<exists>ds. observation_digits example_float_wrapper
                 [f64 ieee_arith (example_float_high ! 0 + 100)] = Inr ds
            \<and> ds ! 0 = 9)"
proof -
  have 1: "(8::int) < 2 ^ 51" "(0::int) \<le> 8" by simp_all
  note inst = observation_outlier_bins [OF example_init example_bounds rounding_laws_exact
      example_regular 1]
  note finst = observation_outlier_bins [OF example_float_init example_float_bounds
      rounding_laws_ieee example_float_regular 1]
  from inst [of "[- 102.4, 0, 0, 0]"] inst [of "[102.4, 0, 0, 0]"]
  have a: "(\<exists>ds. observation_digits example_wrapper [- 102.4, 0, 0, 0] = Inr ds \<and> ds ! 0 = 0)
     \<and> (\<exists>ds. observation_digits example_wrapper [102.4, 0, 0, 0] = Inr ds \<and> ds ! 0 = 9)"
    by (simp add: example_eval)
  have small: "\<bar>example_float_low ! 0\<bar> \<le> 2 ^ 58" by (simp add: example_float_low_def)
  have order: "example_float_low ! 0 \<le> example_float_high ! 0"
    by (simp add: example_float_low_def example_float_high_def)
  have nb: "n_bins example_float_wrapper = 8" by (simp add: example_float_wrapper_def)
  from finst [of "[f64 ieee_arith (example_float_low ! 0 - 100)]"] small order
  have b: "\<exists>ds. observation_digits example_float_wrapper
                 [f64 ieee_arith (example_float_low ! 0 - 100)] = Inr ds \<and> ds ! 0 = 0"
    by (auto simp: example_float_low_def example_float_high_def)
  from finst [of "[f64 ieee_arith (example_float_high ! 0 + 100)]"] order
  have c: "\<exists>ds. observation_digits example_float_wrapper
                 [f64 ieee_arith (example_float_high ! 0 + 100)] = Inr ds \<and> ds ! 0 = 9"
    by (auto simp: example_float_low_def example_float_high_def nb)
  from a b c show ?thesis by blast
qed

text \<open>
  The claim as it stands fails for a large lower bound: with \<^verbatim>\<open>low=[2.0**61]\<close> the double
  \<^verbatim>\<open>low[0] - 100\<close> is \<^verbatim>\<open>low[0]\<close>, and a component with that value gets bin index \<open>1\<close>.
\<close>

theorem observation_large_bound_counterexample:
  "DiscretizedObservationWrapper_init ieee_arith example_env 8
      (Some example_large_low) (Some example_large_high) = Inr example_large_wrapper
   \<and> f64 ieee_arith (example_large_low ! 0 - 100) = example_large_low ! 0
   \<and> observation_digits example_large_wrapper [f64 ieee_arith (example_large_low ! 0 - 100)]
      = Inr [1]"
proof -
  have r: "f64 ieee_arith (example_large_low ! 0 - 100) = example_large_low ! 0"
    by (simp add: example_large_low_def float_round_eval)
  have "observation_digits example_large_wrapper [example_large_low ! 0] = Inr [1]"
    by (simp add: observation_digits_def example_large_wrapper_def example_large_low_def
        digitize_def monotonicity_def searchsorted_right_def upt_rec [of _ "numeral _"])
  with r example_large_init show ?thesis by (simp only:)
qed

text \<open>
  Claim C6, as amended. For a wrapper over \<open>d\<close> dimensions (bound vectors of length \<open>d\<close>)
  built over regular bounds with a number of bins that is not negative and at most
  \<open>2 ^ 63\<close> states, and every input vector of length \<open>d\<close>, whatever its components,
  \<open>observation\<close> raises nothing and returns an integer in \<open>[0, (n_bins + 2) ^ d - 1]\<close>, a
  member of the wrapper's discrete observation space. This holds in every arithmetic
  with the rounding laws, exact or machine, for fewer than \<open>2 ^ 51\<close> bins. With more
  than \<open>2 ^ 63\<close> states the claim fails, as the counterexample after the theorem shows.
\<close>

theorem observation_in_range:
  assumes "DiscretizedObservationWrapper_init ar e nb low high = Inr w"
    and "bounds e low high = Some (lo, hi)"
    and "rounding_laws ar"
    and "list_all (\<lambda>(l, h). regular_bounds ar nb l h) (zip lo hi)"
    and "nb < 2 ^ 51" and "0 \<le> nb"
    and "length hi = length lo" and "length obs = length lo"
    and "(nb + 2) ^ length lo \<le> 2 ^ 63"
  shows "\<exists>sc s. observation ar w obs = Inr sc \<and> integer_value sc = Some s
           \<and> 0 \<le> s \<and> s \<le> (n_bins w + 2) ^ length lo - 1
           \<and> observation_space w = Discrete ((n_bins w + 2) ^ length lo)"
proof -
  note given = assms(1-5)
  from given obtain ds where ds: "observation_digits w obs = Inr ds"
    and len: "length ds = min (length obs) (min (length lo) (length hi))"
    by (rule init_observation_digits [where obs = obs]) blast
  from assms(1) obtain lo' hi' where "bounds e low high = Some (lo', hi')" and n: "n_bins w = nb"
    and "observation_space w = Discrete ((nb + 2) ^ length lo')"
    by (rule init_Inr) blast
  with assms(2) have sp: "observation_space w = Discrete ((n_bins w + 2) ^ length lo)" by simp
  from len assms(7,8) have len': "length ds = length lo" by simp
  have rng: "\<forall>d\<in>set ds. 0 \<le> d \<and> d \<le> n_bins w + 1"
    using given ds by (rule init_digits_range)
  then have rng': "\<forall>d\<in>set ds. 0 \<le> d \<and> d < n_bins w + 2" by fastforce
  have size: "(n_bins w + 2) ^ length ds \<le> 2 ^ 63" using assms(9) by (simp add: n len')
  have iv: "integer_value (convert_to_one_number ar w ds) = Some (mixed_radix (n_bins w + 2) ds)"
    using rng size by (rule integer_value_convert)
  from mixed_radix_range [OF rng'] len'
  have "0 \<le> mixed_radix (n_bins w + 2) ds
          \<and> mixed_radix (n_bins w + 2) ds < (n_bins w + 2) ^ length lo"
    by simp
  with ds sp iv show ?thesis by (simp add: observation_def)
qed

theorem observation_in_range_witness:
  "(\<exists>sc s. observation exact_arith example_wrapper [1000000, - 1000000, 0.02, 5] = Inr sc
        \<and> integer_value sc = Some s \<and> 0 \<le> s \<and> s \<le> 9999)
     \<and> (\<exists>sc s. observation ieee_arith example_float_wrapper [- 1000000] = Inr sc
        \<and> integer_value sc = Some s \<and> 0 \<le> s \<and> s \<le> 9)"
proof -
  have 1: "(8::int) < 2 ^ 51" "(0::int) \<le> 8" by simp_all
  have 2: "length example_high = length example_low"
    "length [1000000, - 1000000, 0.02, 5 :: real] = length example_low"
    "((8::int) + 2) ^ length example_low \<le> 2 ^ 63"
    by (simp_all add: example_low_def example_high_def)
  have 3: "length example_float_high = length example_float_low"
    "length [- 1000000 :: real] = length example_float_low"
    "((8::int) + 2) ^ length example_float_low \<le> 2 ^ 63"
    by (simp_all add: example_float_low_def example_float_high_def)
  from observation_in_range [OF example_init example_bounds rounding_laws_exact example_regular 1 2]
  have a: "\<exists>sc s. observation exact_arith example_wrapper [1000000, - 1000000, 0.02, 5] = Inr sc
        \<and> integer_value sc = Some s \<and> 0 \<le> s \<and> s \<le> 9999"
    by (simp add: example_low_def example_wrapper_def)
  from observation_in_range [OF example_float_init example_float_bounds rounding_laws_ieee
      example_float_regular 1 3]
  have b: "\<exists>sc s. observation ieee_arith example_float_wrapper [- 1000000] = Inr sc
        \<and> integer_value sc = Some s \<and> 0 \<le> s \<and> s \<le> 9"
    by (simp add: example_float_low_def example_float_wrapper_def)
  from a b show ?thesis ..
qed

text \<open>
  The claim as it stands fails: for nineteen dimensions and eight bins, with every
  component above its upper bound, the sum of the \<^verbatim>\<open>np.int64\<close> products wraps around and
  the state is negative.
\<close>

theorem observation_wraps_counterexample:
  "DiscretizedObservationWrapper_init ieee_arith (example_unit_env 19) 8 None None
      = Inr (example_unit_wrapper 19)
   \<and> observation_space (example_unit_wrapper 19) = Discrete (10 ^ 19)
   \<and> observation ieee_arith (example_unit_wrapper 19) (replicate 19 2)
      = Inr (NpInt64 (- 8446744073709551617))"
proof -
  have nb: "n_bins (example_unit_wrapper 19) = 8" by (simp add: example_unit_wrapper_def)
  have "digitize 2 [0, 1 / 8, 2 / 8, 3 / 8, 4 / 8, 5 / 8, 6 / 8, 7 / 8, 1] = Inr 9"
    by (simp add: digitize_def monotonicity_def searchsorted_right_def)
  then have ds: "observation_digits (example_unit_wrapper 19) (replicate 19 2)
      = Inr (replicate 19 9)"
    by (rule example_unit_digits)
  have r: "replicate 19 (9::int) = [9, 9, 9, 9, 9, 9, 9, 9, 9, 9, 9, 9, 9, 9, 9, 9, 9, 9, 9]"
    by (simp add: numeral_eq_Suc)
  have c: "convert_to_one_number ieee_arith (example_unit_wrapper 19) [9, 9, 9, 9, 9, 9, 9, 9, 9, 9, 9, 9, 9, 9, 9, 9, 9, 9, 9]
           = NpInt64 (- 8446744073709551617)"
    by (simp add: convert_to_one_number_def nb int64_times_fits int64_plus_def fits_int64_def
        wrap64_def)
  have o: "observation ieee_arith (example_unit_wrapper 19) (replicate 19 2)
      = Inr (NpInt64 (- 8446744073709551617))"
    by (simp only: observation_def ds r c sum.case)
  have sp: "observation_space (example_unit_wrapper 19) = Discrete (10 ^ 19)"
    by (simp add: example_unit_wrapper_def)
  from example_unit_init [of 19] sp o show ?thesis by blast
qed

section \<open>The agent: claims about the update\<close>

text \<open>
  Claim C1, as amended. For a call of \<^verbatim>\<open>_update_q_value\<close> with valid state and action
  indices, with \<open>q\<close> the old value of the cell: a terminal call stores
  \<open>q + alpha * (reward - q)\<close>, and a non-terminal call whose next state is valid stores
  \<open>q + alpha * (reward + gamma * max - q)\<close>, \<open>max\<close> being the maximum of the next state's
  row; each operation is a double-precision operation and the store rounds to single
  precision. In exact arithmetic these are the two formulas themselves, and one terminal
  call on an all-zero table leaves \<open>alpha * reward\<close> in the cell. In machine arithmetic the
  cell holds the single-precision rounding of the result, which need not equal
  \<open>alpha * reward\<close>, as the counterexample after the theorem shows.
\<close>

theorem update_q_value_rule:
  assumes "Q_cell p state action = Inr (i, j)"
  shows "(\<exists>p'. update_q_value ar p state action new_state reward True = Inr p'
            \<and> Q p' ! i ! j
                = f32 ar (f64 ar (Q p ! i ! j + f64 ar (alpha p * f64 ar (reward - Q p ! i ! j)))))
       \<and> (\<forall>row. Q_row p new_state = Inr row \<and> row \<noteq> [] \<longrightarrow>
             (\<exists>p'. update_q_value ar p state action new_state reward False = Inr p'
                \<and> Q p' ! i ! j
                    = f32 ar (f64 ar (Q p ! i ! j
                        + f64 ar (alpha p
                            * f64 ar (f64 ar (reward + f64 ar (gamma p * Max (set row)))
                                      - Q p ! i ! j))))))
       \<and> (\<exists>p'. update_q_value exact_arith p state action new_state reward True = Inr p'
            \<and> Q p' ! i ! j = Q p ! i ! j + alpha p * (reward - Q p ! i ! j))
       \<and> (\<forall>row. Q_row p new_state = Inr row \<and> row \<noteq> [] \<longrightarrow>
             (\<exists>p'. update_q_value exact_arith p state action new_state reward False = Inr p'
                \<and> Q p' ! i ! j
                    = Q p ! i ! j + alpha p * (reward + gamma p * Max (set row) - Q p ! i ! j)))
       \<and> ((\<forall>row\<in>set (Q p). \<forall>q\<in>set row. q = 0) \<longrightarrow>
             (\<exists>p'. update_q_value exact_arith p state action new_state reward True = Inr p'
                \<and> Q p' ! i ! j = alpha p * reward))"
proof -
  from Q_cell_less [OF assms] have i: "i < length (Q p)" and j: "j < length (Q p ! i)" by simp_all
  have 1: "\<exists>p'. update_q_value ar p state action new_state reward True = Inr p'
            \<and> Q p' ! i ! j
                = f32 ar (f64 ar (Q p ! i ! j + f64 ar (alpha p * f64 ar (reward - Q p ! i ! j))))"
    for ar
    using i j by (simp add: update_done [OF assms] Q_increment_cell)
  have 2: "\<exists>p'. update_q_value ar p state action new_state reward False = Inr p'
                \<and> Q p' ! i ! j
                    = f32 ar (f64 ar (Q p ! i ! j
                        + f64 ar (alpha p
                            * f64 ar (f64 ar (reward + f64 ar (gamma p * Max (set row)))
                                      - Q p ! i ! j))))"
    if "Q_row p new_state = Inr row" "row \<noteq> []" for row ar
    using i j by (simp add: update_not_done [OF assms that] Q_increment_cell)
  have 3: "\<exists>p'. update_q_value exact_arith p state action new_state reward True = Inr p'
            \<and> Q p' ! i ! j = Q p ! i ! j + alpha p * (reward - Q p ! i ! j)"
    using 1 [of exact_arith] by simp
  have 4: "\<exists>p'. update_q_value exact_arith p state action new_state reward False = Inr p'
                \<and> Q p' ! i ! j
                    = Q p ! i ! j + alpha p * (reward + gamma p * Max (set row) - Q p ! i ! j)"
    if "Q_row p new_state = Inr row" "row \<noteq> []" for row
    using 2 [OF that, of exact_arith] by simp
  have 5: "\<exists>p'. update_q_value exact_arith p state action new_state reward True = Inr p'
                \<and> Q p' ! i ! j = alpha p * reward"
    if z: "\<forall>row\<in>set (Q p). \<forall>q\<in>set row. q = 0"
  proof -
    have "Q p ! i \<in> set (Q p)" using i by simp
    then have "Q p ! i ! j = 0" using z j by (meson nth_mem)
    with 3 show ?thesis by simp
  qed
  from 1 [of ar] 2 [of _ ar] 3 4 5 show ?thesis by blast
qed

theorem update_q_value_rule_witness:
  "(\<exists>p'. update_q_value exact_arith example_policy 1 0 2 2 True = Inr p' \<and> Q p' ! 1 ! 0 = 1.5)
     \<and> (\<exists>p'. update_q_value exact_arith example_policy 1 0 2 2 False = Inr p'
            \<and> Q p' ! 1 ! 0 = 2.49)
     \<and> (\<exists>p'. update_q_value exact_arith example_zero_policy 1 0 2 2 True = Inr p'
            \<and> Q p' ! 1 ! 0 = alpha example_zero_policy * 2)"
proof -
  have z: "\<forall>row\<in>set (Q example_zero_policy). \<forall>q\<in>set row. q = 0"
    by (simp add: example_zero_policy_def)
  have r: "Q_row example_policy 2 = Inr [2, 2] \<and> [2, 2 :: real] \<noteq> []"
    by (simp add: example_row)
  have q: "Q example_policy ! 1 ! 0 + alpha example_policy * (2 - Q example_policy ! 1 ! 0) = 1.5"
    "Q example_policy ! 1 ! 0
       + alpha example_policy * (2 + gamma example_policy * Max (set [2, 2]) - Q example_policy ! 1 ! 0)
     = 2.49"
    by (simp_all add: example_policy_def)
  note rule = update_q_value_rule [OF example_cell, of exact_arith 2 2]
  from rule obtain p1 where "update_q_value exact_arith example_policy 1 0 2 2 True = Inr p1"
    and "Q p1 ! 1 ! 0 = Q example_policy ! 1 ! 0 + alpha example_policy * (2 - Q example_policy ! 1 ! 0)"
    by blast
  then have 1: "\<exists>p'. update_q_value exact_arith example_policy 1 0 2 2 True = Inr p'
                  \<and> Q p' ! 1 ! 0 = 1.5"
    by (simp only: q) blast
  from rule r obtain p2 where "update_q_value exact_arith example_policy 1 0 2 2 False = Inr p2"
    and "Q p2 ! 1 ! 0 = Q example_policy ! 1 ! 0
       + alpha example_policy * (2 + gamma example_policy * Max (set [2, 2]) - Q example_policy ! 1 ! 0)"
    by blast
  then have 2: "\<exists>p'. update_q_value exact_arith example_policy 1 0 2 2 False = Inr p'
                  \<and> Q p' ! 1 ! 0 = 2.49"
    by (simp only: q) blast
  from update_q_value_rule [OF example_zero_cell, of exact_arith 2 2] z
  have 3: "\<exists>p'. update_q_value exact_arith example_zero_policy 1 0 2 2 True = Inr p'
            \<and> Q p' ! 1 ! 0 = alpha example_zero_policy * 2"
    by blast
  from 1 2 3 show ?thesis by blast
qed

text \<open>
  The claim as it stands fails on the single-precision table: with \<open>alpha\<close> the double
  nearest to \<open>0.1\<close> and reward \<open>1\<close>, a terminal call on the all-zero table stores
  \<open>13421773 / 2 ^ 27\<close>, the single nearest to \<open>alpha\<close>, which is not \<open>alpha * 1\<close>.
\<close>

theorem update_zero_table_counterexample:
  "update_q_value ieee_arith (example_zero_policy\<lparr>alpha := example_tenth\<rparr>) 1 0 2 1 True
     = Inr (example_zero_policy\<lparr>alpha := example_tenth,
                               Q := [[0, 0], [13421773 / 134217728, 0], [0, 0]]\<rparr>)
   \<and> alpha (example_zero_policy\<lparr>alpha := example_tenth\<rparr>) * 1 \<noteq> 13421773 / 134217728"
  by (simp add: update_q_value_def Q_cell_def np_index_def Q_increment_def
      example_zero_policy_def example_tenth_def float_round_eval)

text \<open>
  Claim C9. For a call of \<^verbatim>\<open>_update_q_value\<close> with valid state and action indices, in any
  arithmetic: a call that returns has changed nothing but the cell of that state and
  action (the shape of the table, every other cell, \<open>gamma\<close>, \<open>alpha\<close>, \<open>epsilon\<close> and the
  other fields are as before); the result of a terminal call does not depend on the next
  state; and a terminal call returns for every next state.
\<close>

theorem update_q_value_frame:
  assumes "Q_cell p state action = Inr (i, j)"
  shows "(\<forall>p'. update_q_value ar p state action new_state reward done = Inr p' \<longrightarrow>
            (\<exists>v. p' = p\<lparr>Q := (Q p)[i := (Q p ! i)[j := v]]\<rparr>)
            \<and> length (Q p') = length (Q p)
            \<and> (\<forall>i' j'. (i', j') \<noteq> (i, j) \<longrightarrow> Q p' ! i' ! j' = Q p ! i' ! j')
            \<and> (\<forall>i'. length (Q p' ! i') = length (Q p ! i'))
            \<and> gamma p' = gamma p \<and> alpha p' = alpha p \<and> epsilon p' = epsilon p)
       \<and> (\<forall>s1 s2. update_q_value ar p state action s1 reward True
                    = update_q_value ar p state action s2 reward True)
       \<and> (\<exists>p'. update_q_value ar p state action new_state reward True = Inr p')"
proof -
  have 1: "(\<exists>v. p' = p\<lparr>Q := (Q p)[i := (Q p ! i)[j := v]]\<rparr>)
            \<and> length (Q p') = length (Q p)
            \<and> (\<forall>i' j'. (i', j') \<noteq> (i, j) \<longrightarrow> Q p' ! i' ! j' = Q p ! i' ! j')
            \<and> (\<forall>i'. length (Q p' ! i') = length (Q p ! i'))
            \<and> gamma p' = gamma p \<and> alpha p' = alpha p \<and> epsilon p' = epsilon p"
    if "update_q_value ar p state action new_state reward done = Inr p'" for p'
  proof -
    from that obtain i0 j0 x where c: "Q_cell p state action = Inr (i0, j0)"
      and p'0: "p' = Q_increment ar p i0 j0 x"
      by (rule update_Inr_cases) blast
    from c assms have "i0 = i" "j0 = j" by simp_all
    with p'0 have p': "p' = p\<lparr>Q := (Q p)[i := (Q p ! i)[j := f32 ar (f64 ar (Q p ! i ! j + x))]]\<rparr>"
      by (simp add: Q_increment_def)
    have len: "length (Q p' ! i') = length (Q p ! i')" for i'
      by (cases "i' = i"; cases "i < length (Q p)") (simp_all add: p' list_update_beyond)
    have "Q p' ! i' ! j' = Q p ! i' ! j'" if "(i', j') \<noteq> (i, j)" for i' j'
      using nth_cell_update_other [OF that] by (simp add: p')
    with len show ?thesis by (auto simp: p')
  qed
  have 2: "update_q_value ar p state action s1 reward True
             = update_q_value ar p state action s2 reward True"
    for s1 s2 by (simp add: update_q_value_def)
  have 3: "\<exists>p'. update_q_value ar p state action new_state reward True = Inr p'"
    by (simp add: update_done [OF assms])
  from 1 2 3 show ?thesis by blast
qed

theorem update_q_value_frame_witness:
  "update_q_value exact_arith example_policy 1 0 2 2 False
      = Inr (example_policy\<lparr>Q := [[0, 0], [2.49, 3], [2, 2]]\<rparr>)
     \<and> update_q_value exact_arith example_policy 1 0 2 2 True
          = update_q_value exact_arith example_policy 1 0 77 2 True
     \<and> update_q_value exact_arith example_policy 1 0 77 2 True
          = Inr (example_policy\<lparr>Q := [[0, 0], [1.5, 3], [2, 2]]\<rparr>)"
proof -
  note f = update_q_value_frame [OF example_cell, of exact_arith 77 2 True]
  from f have "update_q_value exact_arith example_policy 1 0 2 2 True
                 = update_q_value exact_arith example_policy 1 0 77 2 True"
    by blast
  moreover have "update_q_value exact_arith example_policy 1 0 2 2 False
      = Inr (example_policy\<lparr>Q := [[0, 0], [2.49, 3], [2, 2]]\<rparr>)"
    by (simp add: update_not_done [OF example_cell example_row] Q_increment_def)
       (simp add: example_policy_def)
  moreover have "update_q_value exact_arith example_policy 1 0 77 2 True
          = Inr (example_policy\<lparr>Q := [[0, 0], [1.5, 3], [2, 2]]\<rparr>)"
    by (simp add: update_done [OF example_cell] Q_increment_def) (simp add: example_policy_def)
  ultimately show ?thesis by blast
qed

text \<open>
  Claim C10, as amended. In exact arithmetic: for a reward bound \<open>R \<ge> 0\<close>, \<open>gamma\<close> in
  \<open>[0, 1)\<close> and \<open>alpha\<close> in \<open>(0, 1]\<close>, if every cell of the table is at most
  \<open>R / (1 - gamma)\<close> in absolute value and every call of a finite sequence of update calls
  has a reward of absolute value at most \<open>R\<close>, then every cell is still at most
  \<open>R / (1 - gamma)\<close> in absolute value after the sequence (where a call raises, the
  sequence ends with the table as it was). In machine arithmetic the store into the
  single-precision table can round a cell above the bound, as the
  counterexample after the theorem shows.
\<close>

theorem update_calls_bounded:
  assumes "0 \<le> R" and "0 \<le> gamma p" and "gamma p < 1" and "0 < alpha p" and "alpha p \<le> 1"
    and "\<forall>row\<in>set (Q p). \<forall>q\<in>set row. \<bar>q\<bar> \<le> R / (1 - gamma p)"
    and "\<forall>(state, action, new_state, reward, done)\<in>set calls. \<bar>reward\<bar> \<le> R"
  shows "\<forall>row\<in>set (Q (fst (update_calls exact_arith p calls))). \<forall>q\<in>set row.
           \<bar>q\<bar> \<le> R / (1 - gamma p)"
proof -
  have "Q_bounded (R / (1 - gamma p)) (fst (update_calls exact_arith p calls))
          \<and> gamma (fst (update_calls exact_arith p calls)) = gamma p"
    if "Q_bounded (R / (1 - gamma p)) p" "0 \<le> gamma p" "gamma p < 1" "0 < alpha p" "alpha p \<le> 1"
      "\<forall>(state, action, new_state, reward, done)\<in>set calls. \<bar>reward\<bar> \<le> R"
    using that
  proof (induction calls arbitrary: p)
    case Nil
    then show ?case by simp
  next
    case (Cons c calls)
    obtain state action new_state reward d where c: "c = (state, action, new_state, reward, d)"
      by (cases c)
    show ?case
    proof (cases "update_q_value exact_arith p state action new_state reward d")
      case (Inl err)
      with Cons.prems show ?thesis by (simp add: c)
    next
      case (Inr p')
      from update_keeps_fields [OF Inr] have k: "gamma p' = gamma p" "alpha p' = alpha p" by simp_all
      from Cons.prems(6) have r: "\<bar>reward\<bar> \<le> R"
        and rest: "\<forall>(state, action, new_state, reward, done)\<in>set calls. \<bar>reward\<bar> \<le> R"
        by (simp_all add: c)
      have b': "Q_bounded (R / (1 - gamma p')) p'"
        unfolding k using Inr Cons.prems(2-5) r Cons.prems(1) by (rule update_preserves_bound)
      from Cons.IH [OF b' _ _ _ _ rest] Cons.prems(2-5) show ?thesis by (simp add: c Inr k)
    qed
  qed
  with assms show ?thesis by (simp add: Q_bounded_def)
qed

theorem update_calls_bounded_witness:
  "Q (fst (update_calls exact_arith example_zero_policy [(1, 0, 2, 1, False), (0, 1, 1, - 1, False), (1, 0, 0, 1, True)]))
      = [[0, - 0.2525], [0.75, 0], [0, 0]]
   \<and> Q_bounded (1 / (1 - gamma example_zero_policy))
        (fst (update_calls exact_arith example_zero_policy
               [(1, 0, 2, 1, False), (0, 1, 1, - 1, False), (1, 0, 0, 1, True)]))"
proof -
  let ?calls = "[(1, 0, 2, 1, False), (0, 1, 1, - 1, False), (1, 0, 0, 1, True)]
                  :: (int \<times> int \<times> int \<times> real \<times> bool) list"
  have 1: "(0::real) \<le> 1" "0 \<le> gamma example_zero_policy" "gamma example_zero_policy < 1"
    "0 < alpha example_zero_policy" "alpha example_zero_policy \<le> 1"
    by (simp_all add: example_zero_policy_def)
  have 2: "\<forall>row\<in>set (Q example_zero_policy). \<forall>q\<in>set row.
             \<bar>q\<bar> \<le> 1 / (1 - gamma example_zero_policy)"
    by (simp add: example_zero_policy_def)
  have 3: "\<forall>(state, action, new_state, reward, done)\<in>set ?calls. \<bar>reward\<bar> \<le> (1::real)"
    by simp
  from update_calls_bounded [OF 1 2 3]
  have "Q_bounded (1 / (1 - gamma example_zero_policy)) (fst (update_calls exact_arith example_zero_policy ?calls))"
    by (simp only: Q_bounded_def)
  moreover have "Q (fst (update_calls exact_arith example_zero_policy ?calls))
      = [[0, - 0.2525], [0.75, 0], [0, 0]]"
    by (simp add: update_q_value_def Q_increment_def Q_cell_def Q_row_def np_index_def np_max_def
        example_zero_policy_def)
  ultimately show ?thesis by blast
qed

text \<open>
  The claim as it stands fails on the single-precision table: with \<open>gamma = 0\<close>,
  \<open>alpha = 1\<close> and \<open>R\<close> the double nearest to \<open>0.1\<close>, one terminal call with reward \<open>R\<close> on the
  all-zero table stores the single nearest to \<open>R\<close>, which is greater than
  \<open>R / (1 - gamma) = R\<close>.
\<close>

theorem update_bound_counterexample:
  "fst (update_calls ieee_arith (example_zero_policy\<lparr>gamma := 0, alpha := 1\<rparr>)
          [(1, 0, 2, example_tenth, True)])
     = example_zero_policy\<lparr>gamma := 0, alpha := 1,
                            Q := [[0, 0], [13421773 / 134217728, 0], [0, 0]]\<rparr>
   \<and> \<bar>example_tenth\<bar> \<le> example_tenth
   \<and> Q_bounded (example_tenth / (1 - 0)) (example_zero_policy\<lparr>gamma := 0, alpha := 1\<rparr>)
   \<and> example_tenth / (1 - 0) < \<bar>13421773 / 134217728\<bar>"
  by (simp add: update_q_value_def Q_cell_def np_index_def Q_increment_def Q_bounded_def
      example_zero_policy_def example_tenth_def float_round_eval)


section \<open>The agent: claims about action selection\<close>

text \<open>
  Claim C7. For a call of \<^verbatim>\<open>act\<close> with a valid state in which the exploration test fails
  (\<^verbatim>\<open>training\<close> is false, or \<open>epsilon\<close> is not positive, or the uniform draw is not below
  \<open>epsilon\<close>): an action that is returned achieves the maximum of the state's row, compared
  with exact equality; an action is returned whenever the row has \<^verbatim>\<open>n_actions\<close> cells and
  there is at least one action; and every action achieving the maximum is the one
  returned for some draw of the generator, so the result need not be the maximiser of
  lowest index.
\<close>

theorem act_greedy:
  assumes "np_index (length (Q p)) state = Inr i"
    and "\<not> (training \<and> num_val (epsilon p) > 0 \<and> fst (random_rand ops w) < num_val (epsilon p))"
  shows "(\<forall>a. fst (act ops p state training w) = Inr a \<longrightarrow> is_max_action p i a)
       \<and> (length (Q p ! i) = nat (n_actions p) \<and> 0 < n_actions p \<longrightarrow>
            (\<exists>a. fst (act ops p state training w) = Inr a))
       \<and> (length (Q p ! i) = nat (n_actions p) \<longrightarrow>
            (\<forall>a. is_max_action p i a \<longrightarrow>
               (\<exists>k. fst (act (ops\<lparr>random_draw := \<lambda>n w. (k, w)\<rparr>) p state training w) = Inr a)))"
proof -
  let ?row = "Q p ! i"
  let ?cands = "map int (filter (\<lambda>a. ?row ! a = Max (set ?row)) [0..<nat (n_actions p)])"
  have ne: "\<not> fst (explores ops' p training w)" if "random_rand ops' = random_rand ops" for ops'
    using assms(2) that by (intro explores_not) simp
  have ne0: "\<not> fst (explores ops p training w)" by (rule ne) simp
  have 1: "is_max_action p i a" if a: "fst (act ops p state training w) = Inr a" for a
  proof -
    from act_greedy_Inr [OF assms(1) ne0 a] have row: "?row \<noteq> []" "length ?row = nat (n_actions p)"
      by simp_all
    from a have "a \<in> set ?cands"
      unfolding act_greedy_unfold [OF assms(1) ne0 row] by (rule random_choice_mem)
    then show ?thesis by (simp only: is_max_action_iff [OF row(2)])
  qed
  have 2: "\<exists>a. fst (act ops p state training w) = Inr a"
    if len: "length ?row = nat (n_actions p)" and pos: "0 < n_actions p"
  proof -
    from len pos have row: "?row \<noteq> []" by auto
    then have "Max (set ?row) \<in> set ?row" by (intro Max_in) simp_all
    then obtain k where k: "k < length ?row" "?row ! k = Max (set ?row)"
      by (auto simp: in_set_conv_nth)
    then have "int k \<in> set ?cands" using len by simp
    then have "?cands \<noteq> []" by (metis empty_iff empty_set)
    from random_choice_total [OF this] show ?thesis
      unfolding act_greedy_unfold [OF assms(1) ne0 row len] .
  qed
  have 3: "\<exists>k. fst (act (ops\<lparr>random_draw := \<lambda>n w. (k, w)\<rparr>) p state training w) = Inr a"
    if len: "length ?row = nat (n_actions p)" and a: "is_max_action p i a" for a
  proof -
    from a have row: "?row \<noteq> []" by (auto simp: is_max_action_def)
    from a have mem: "a \<in> set ?cands" by (simp only: is_max_action_iff [OF len])
    have "fst (act (ops\<lparr>random_draw := \<lambda>n w. (k, w)\<rparr>) p state training w)
            = fst (random_choice (ops\<lparr>random_draw := \<lambda>n w. (k, w)\<rparr>) ?cands
                     (snd (explores ops p training w)))" for k
    proof -
      have e: "explores (ops\<lparr>random_draw := \<lambda>n w. (k, w)\<rparr>) p training w = explores ops p training w"
        by (simp add: explores_def)
      show ?thesis
        using act_greedy_unfold [OF assms(1) _ row len, of "ops\<lparr>random_draw := \<lambda>n w. (k, w)\<rparr>" training w]
          ne0 by (simp add: e)
    qed
    with random_choice_reach [OF mem] show ?thesis by simp
  qed
  from 1 2 3 show ?thesis by blast
qed

theorem act_greedy_witness:
  "fst (act example_ops example_policy 2 False 1) = Inr 1
     \<and> is_max_action example_policy 2 1
     \<and> fst (act example_ops example_policy 2 False 0) = Inr 0
     \<and> is_max_action example_policy 2 0"
proof -
  have ne: "\<not> (False \<and> num_val (epsilon example_policy) > 0
               \<and> fst (random_rand example_ops w) < num_val (epsilon example_policy))" for w :: nat
    by simp
  have 1: "fst (act example_ops example_policy 2 False 1) = Inr 1"
    by (simp add: act_def explores_def Q_row_def np_index_def np_max_def actions_with_max_q_def
        random_choice_def example_policy_def example_ops_def upt_rec [of _ "numeral _"])
  have 0: "fst (act example_ops example_policy 2 False 0) = Inr 0"
    by (simp add: act_def explores_def Q_row_def np_index_def np_max_def actions_with_max_q_def
        random_choice_def example_policy_def example_ops_def upt_rec [of _ "numeral _"])
  from act_greedy [OF example_state ne [of 1]] 1 have "is_max_action example_policy 2 1" by blast
  moreover from act_greedy [OF example_state ne [of 0]] 0 have "is_max_action example_policy 2 0"
    by blast
  ultimately show ?thesis using 0 1 by blast
qed

section \<open>Claims about construction\<close>




section \<open>The agent: claims about training\<close>




end
